theory Spec2Isabelle
  imports Main "HOL-Library.Multiset"
begin

section \<open>Data model of the queue engine\<close>

text \<open>
  The engine is the closure returned by \<^verbatim>\<open>QBall(processor, options)\<close>. Its variables
  (\<^verbatim>\<open>isProcessing\<close>, \<^verbatim>\<open>forceStopped\<close>, \<^verbatim>\<open>messagePackets\<close>, \<^verbatim>\<open>listeners\<close>,
  \<^verbatim>\<open>workerObjects\<close>) become the fields of a record, and every engine lives at an address
  of a store, because a dead letter queue is a reference to another engine.

  JavaScript runs the engine on one thread: a synchronous piece of code runs to its next
  \<^verbatim>\<open>await\<close>, the continuation after an \<^verbatim>\<open>await\<close> is a microtask, and a
  \<^verbatim>\<open>setTimeout\<close> callback is a timer task. The model keeps a FIFO queue of microtasks
  and a list of timers with their due time on a virtual clock.
\<close>

datatype kind = Error | Finished | Processed | Retry | Started

datatype ('m, 'd, 'e) payload =
    ErrorP 'e
  | FinishedP
  | ProcessedP 'd
  | RetryP 'm nat nat
  | StartedP

fun kind_of :: "('m, 'd, 'e) payload \<Rightarrow> kind" where
  "kind_of (ErrorP x) = Error"
| "kind_of FinishedP = Finished"
| "kind_of (ProcessedP d) = Processed"
| "kind_of (RetryP m a dl) = Retry"
| "kind_of StartedP = Started"

text \<open>
  A listener is either the one the engine itself pushes first on the lists of
  \<^verbatim>\<open>processed\<close>, \<^verbatim>\<open>error\<close> and \<^verbatim>\<open>finished\<close>, or a callback of the user, known
  by its identity. A user callback observes the event and returns, or raises.
\<close>

datatype listener = Internal | User nat

record 'm packet =
  message :: 'm
  attempt :: nat

record worker =
  isWorking :: bool
  isAwaitingRetry :: bool

text \<open>
  The processor is the user's function. It is called with the message and returns a
  promise; the model gives it the number of calls made before this one (so that it can
  fail on the first call only), and it answers with the time its promise takes to settle
  (0: settled when returned) and with the rejection or the data.
\<close>

record ('m, 'd, 'e) options =
  processor :: "nat \<Rightarrow> 'm \<Rightarrow> nat \<times> ('e + 'd)"
  autoStart :: bool
  debug :: bool
  dlq :: "nat option"
  messages :: "'m list"
  nextStopCheckFrequency :: nat
  onError :: "nat option"
  onFinished :: "nat option"
  onProcessed :: "nat option"
  onRetry :: "nat option"
  onStarted :: "nat option"
  redriveCount :: nat
  redriveDelay :: "nat \<Rightarrow> 'm \<Rightarrow> nat"
  stopOnError :: bool
  workers :: nat

definition defaults :: "(nat \<Rightarrow> 'm \<Rightarrow> nat \<times> ('e + 'd)) \<Rightarrow> ('m, 'd, 'e) options" where
  "defaults p =
     \<lparr> processor = p, autoStart = True, debug = False, dlq = None, messages = [],
       nextStopCheckFrequency = 10, onError = None, onFinished = None,
       onProcessed = None, onRetry = None, onStarted = None, redriveCount = 0,
       redriveDelay = (\<lambda>a m. 0), stopOnError = False, workers = 1 \<rparr>"

record ('m, 'd, 'e) engine =
  opts :: "('m, 'd, 'e) options"
  isProcessing :: bool
  forceStopped :: bool
  messagePackets :: "'m packet list"
  listeners :: "kind \<Rightarrow> listener list"
  workerObjects :: "worker list"
  invocations :: nat

datatype ('m, 'e) logline =
    WorkerStarted
  | ProcessingMessage nat 'm
  | ErrorProcessing nat 'm 'e
  | AlreadyProcessing
  | NoMessages

text \<open>
  What an observer can see of a run, in the order it happens: a line of the debug log,
  a call of the processor (with the attempt number the packet then carries), a call of
  an emitter, a call of a listener, an exception nobody catches, and the resolution of
  \<^verbatim>\<open>nextStop\<close>.
\<close>

datatype ('m, 'd, 'e) event =
    Logged nat "('m, 'e) logline"
  | Invoked nat 'm nat
  | Emitted nat "('m, 'd, 'e) payload"
  | Called nat listener "('m, 'd, 'e) payload"
  | Unhandled nat 'e
  | Resolved nat

datatype ('m, 'd, 'e) task =
    Settle nat nat "'m packet" "'e + 'd"
  | Resume nat nat "'m packet" "'e + 'd"
  | AfterProcess nat nat
  | Wake nat nat
  | Loop nat nat
  | RetryPush nat nat "'m packet"
  | RetryRestart nat nat
  | NextStopWake nat
  | NextStopLoop nat

record ('m, 'd, 'e) sys =
  engines :: "nat \<Rightarrow> ('m, 'd, 'e) engine"
  nengines :: nat
  raises :: "nat \<Rightarrow> 'e option"
  now :: nat
  microtasks :: "('m, 'd, 'e) task list"
  timers :: "(nat \<times> ('m, 'd, 'e) task) list"
  trace :: "('m, 'd, 'e) event list"

section \<open>Primitive effects\<close>

definition eng :: "nat \<Rightarrow> ('m, 'd, 'e) sys \<Rightarrow> ('m, 'd, 'e) engine" where
  "eng n s = engines s n"

definition upd ::
  "nat \<Rightarrow> (('m, 'd, 'e) engine \<Rightarrow> ('m, 'd, 'e) engine) \<Rightarrow> ('m, 'd, 'e) sys \<Rightarrow> ('m, 'd, 'e) sys" where
  "upd n f s = s\<lparr>engines := (engines s)(n := f (engines s n))\<rparr>"

definition observe :: "('m, 'd, 'e) event \<Rightarrow> ('m, 'd, 'e) sys \<Rightarrow> ('m, 'd, 'e) sys" where
  "observe ev s = s\<lparr>trace := trace s @ [ev]\<rparr>"

definition debugLog :: "nat \<Rightarrow> ('m, 'e) logline \<Rightarrow> ('m, 'd, 'e) sys \<Rightarrow> ('m, 'd, 'e) sys" where
  "debugLog n line s = (if debug (opts (eng n s)) then observe (Logged n line) s else s)"

definition setTimeout :: "nat \<Rightarrow> ('m, 'd, 'e) task \<Rightarrow> ('m, 'd, 'e) sys \<Rightarrow> ('m, 'd, 'e) sys" where
  "setTimeout delay t s = s\<lparr>timers := timers s @ [(now s + delay, t)]\<rparr>"

definition enqueue :: "('m, 'd, 'e) task \<Rightarrow> ('m, 'd, 'e) sys \<Rightarrow> ('m, 'd, 'e) sys" where
  "enqueue t s = s\<lparr>microtasks := microtasks s @ [t]\<rparr>"

definition hasMessages :: "('m, 'd, 'e) engine \<Rightarrow> bool" where
  "hasMessages e = (messagePackets e \<noteq> [])"

definition anyAwaitingRetry :: "('m, 'd, 'e) engine \<Rightarrow> bool" where
  "anyAwaitingRetry e = list_ex isAwaitingRetry (workerObjects e)"

definition set_isWorking :: "nat \<Rightarrow> nat \<Rightarrow> bool \<Rightarrow> ('m, 'd, 'e) sys \<Rightarrow> ('m, 'd, 'e) sys" where
  "set_isWorking n w b =
     upd n (\<lambda>e. e\<lparr>workerObjects := (workerObjects e)[w := (workerObjects e ! w)\<lparr>isWorking := b\<rparr>]\<rparr>)"

definition set_isAwaitingRetry :: "nat \<Rightarrow> nat \<Rightarrow> bool \<Rightarrow> ('m, 'd, 'e) sys \<Rightarrow> ('m, 'd, 'e) sys" where
  "set_isAwaitingRetry n w b =
     upd n (\<lambda>e. e\<lparr>workerObjects := (workerObjects e)[w := (workerObjects e ! w)\<lparr>isAwaitingRetry := b\<rparr>]\<rparr>)"

section \<open>The emitters\<close>

text \<open>
  \<^verbatim>\<open>for (const listener of listeners.kind) { listener(data); }\<close>: the listeners run in
  the order of the list; an exception leaves the loop and goes to the caller of the
  emitter. The first argument is what the engine's own listener of that kind does.
\<close>

fun deliver ::
  "(('m, 'd, 'e) sys \<Rightarrow> ('m, 'd, 'e) sys \<times> 'e option) \<Rightarrow> nat \<Rightarrow> ('m, 'd, 'e) payload \<Rightarrow>
   listener list \<Rightarrow> ('m, 'd, 'e) sys \<Rightarrow> ('m, 'd, 'e) sys \<times> 'e option" where
  "deliver internal n p [] s = (s, None)"
| "deliver internal n p (l # ls) s =
     (case (case l of Internal \<Rightarrow> internal (observe (Called n l p) s)
                    | User i \<Rightarrow> (observe (Called n l p) s, raises s i)) of
        (s', Some x) \<Rightarrow> (s', Some x)
      | (s', None) \<Rightarrow> deliver internal n p ls s')"

definition publish ::
  "(('m, 'd, 'e) sys \<Rightarrow> ('m, 'd, 'e) sys \<times> 'e option) \<Rightarrow> nat \<Rightarrow> ('m, 'd, 'e) payload \<Rightarrow>
   ('m, 'd, 'e) sys \<Rightarrow> ('m, 'd, 'e) sys \<times> 'e option" where
  "publish internal n p s =
     deliver internal n p (listeners (eng n s) (kind_of p)) (observe (Emitted n p) s)"

text \<open>\<^verbatim>\<open>listeners.finished.push(() => { isProcessing = false; })\<close>\<close>

definition on_finished :: "nat \<Rightarrow> ('m, 'd, 'e) sys \<Rightarrow> ('m, 'd, 'e) sys \<times> 'e option" where
  "on_finished n s = (upd n (\<lambda>e. e\<lparr>isProcessing := False\<rparr>) s, None)"

definition emit_finished :: "nat \<Rightarrow> ('m, 'd, 'e) sys \<Rightarrow> ('m, 'd, 'e) sys \<times> 'e option" where
  "emit_finished n s = publish (on_finished n) n FinishedP s"

text \<open>
  \<^verbatim>\<open>listeners.processed.push(async () => { if (!hasMessages() && !isAwaitingRetry())
  emitters.finished(); })\<close>. The listener is an async function without an await: its body
  runs at the call, and an exception in it rejects the promise it returns, which nobody
  holds, instead of reaching the emitter.
\<close>

definition on_processed :: "nat \<Rightarrow> ('m, 'd, 'e) sys \<Rightarrow> ('m, 'd, 'e) sys \<times> 'e option" where
  "on_processed n s =
     (if \<not> hasMessages (eng n s) \<and> \<not> anyAwaitingRetry (eng n s)
      then (case emit_finished n s of
              (s', Some x) \<Rightarrow> (observe (Unhandled n x) s', None)
            | (s', None) \<Rightarrow> (s', None))
      else (s, None))"

text \<open>
  \<^verbatim>\<open>listeners.error.push((error) => { if (stopOnError) { forceStopped = true;
  emitters.finished(); } })\<close>
\<close>

definition on_error :: "nat \<Rightarrow> ('m, 'd, 'e) sys \<Rightarrow> ('m, 'd, 'e) sys \<times> 'e option" where
  "on_error n s =
     (if stopOnError (opts (eng n s))
      then emit_finished n (upd n (\<lambda>e. e\<lparr>forceStopped := True\<rparr>) s)
      else (s, None))"

text \<open>The engine pushes no listener of its own on \<^verbatim>\<open>retry\<close> and \<^verbatim>\<open>started\<close>.\<close>

definition on_nothing :: "('m, 'd, 'e) sys \<Rightarrow> ('m, 'd, 'e) sys \<times> 'e option" where
  "on_nothing s = (s, None)"

fun internal_of :: "nat \<Rightarrow> kind \<Rightarrow> ('m, 'd, 'e) sys \<Rightarrow> ('m, 'd, 'e) sys \<times> 'e option" where
  "internal_of n Error = on_error n"
| "internal_of n Finished = on_finished n"
| "internal_of n Processed = on_processed n"
| "internal_of n Retry = on_nothing"
| "internal_of n Started = on_nothing"

definition emit :: "nat \<Rightarrow> ('m, 'd, 'e) payload \<Rightarrow> ('m, 'd, 'e) sys \<Rightarrow> ('m, 'd, 'e) sys \<times> 'e option" where
  "emit n p s = publish (internal_of n (kind_of p)) n p s"

section \<open>The workers\<close>

text \<open>
  \<^verbatim>\<open>workerObject.process\<close> up to \<^verbatim>\<open>await processor(messagePacket.message)\<close>: the
  worker is marked as working, the attempt counter of the packet is incremented, and the
  processor is called. The rest of the function runs when the promise has settled:
  as the next microtask when it was settled already, after the timer otherwise.
\<close>

definition process :: "nat \<Rightarrow> nat \<Rightarrow> 'm packet \<Rightarrow> ('m, 'd, 'e) sys \<Rightarrow> ('m, 'd, 'e) sys" where
  "process n w messagePacket s =
     (let s1 = set_isWorking n w True s;
          p = messagePacket\<lparr>attempt := Suc (attempt messagePacket)\<rparr>;
          s2 = debugLog n (ProcessingMessage (attempt p) (message p)) s1;
          (latency, outcome) = processor (opts (eng n s2)) (invocations (eng n s2)) (message p);
          s3 = observe (Invoked n (message p) (attempt p))
                 (upd n (\<lambda>e. e\<lparr>invocations := Suc (invocations e)\<rparr>) s2)
      in if latency = 0 then enqueue (Resume n w p outcome) s3
         else setTimeout latency (Settle n w p outcome) s3)"

text \<open>
  One turn of \<^verbatim>\<open>while (isProcessing || isAwaitingRetry())\<close> in \<^verbatim>\<open>workerObject.start\<close>,
  from the test of the condition to the next \<^verbatim>\<open>await\<close>. With a packet the worker
  awaits \<^verbatim>\<open>process\<close>; without one it emits \<^verbatim>\<open>finished\<close> when the engine is processing
  and no worker awaits a retry, and then sleeps for 1 ms. An exception of a
  \<^verbatim>\<open>finished\<close> listener rejects the promise of \<^verbatim>\<open>start\<close>, which nobody holds, and
  the loop is over.
\<close>

definition worker_loop :: "nat \<Rightarrow> nat \<Rightarrow> ('m, 'd, 'e) sys \<Rightarrow> ('m, 'd, 'e) sys" where
  "worker_loop n w s =
     (if isProcessing (eng n s) \<or> anyAwaitingRetry (eng n s)
      then (case messagePackets (eng n s) of
              messagePacket # rest \<Rightarrow>
                process n w messagePacket (upd n (\<lambda>e. e\<lparr>messagePackets := rest\<rparr>) s)
            | [] \<Rightarrow>
                (case (if isProcessing (eng n s) \<and> \<not> anyAwaitingRetry (eng n s)
                       then emit_finished n s else (s, None)) of
                   (s', Some x) \<Rightarrow> observe (Unhandled n x) s'
                 | (s', None) \<Rightarrow> setTimeout 1 (Wake n w) s'))
      else s)"

definition worker_start :: "nat \<Rightarrow> nat \<Rightarrow> ('m, 'd, 'e) sys \<Rightarrow> ('m, 'd, 'e) sys" where
  "worker_start n w s = worker_loop n w (debugLog n WorkerStarted s)"

section \<open>Starting\<close>

text \<open>
  \<^verbatim>\<open>for (let i = 0; i < workers && messagePackets.length; i++)
  if (!workerObjects[i].isWorking) workerObjects[i].start();\<close>
  The indices still to visit are the list; the loop ends at the first index that finds
  the queue empty.
\<close>

fun start_workers :: "nat \<Rightarrow> nat list \<Rightarrow> ('m, 'd, 'e) sys \<Rightarrow> ('m, 'd, 'e) sys" where
  "start_workers n [] s = s"
| "start_workers n (i # is) s =
     (if messagePackets (eng n s) \<noteq> []
      then start_workers n is
             (if \<not> isWorking (workerObjects (eng n s) ! i) then worker_start n i s else s)
      else s)"

definition startProcessing :: "nat \<Rightarrow> ('m, 'd, 'e) sys \<Rightarrow> ('m, 'd, 'e) sys \<times> 'e option" where
  "startProcessing n s =
     (if isProcessing (eng n s) \<and> \<not> anyAwaitingRetry (eng n s)
      then (debugLog n AlreadyProcessing s, None)
      else (case emit n StartedP s of
              (s1, Some x) \<Rightarrow> (s1, Some x)
            | (s1, None) \<Rightarrow>
                if \<not> hasMessages (eng n s1)
                then emit_finished n (debugLog n NoMessages s1)
                else (start_workers n [0 ..< workers (opts (eng n s1))]
                        (upd n (\<lambda>e. e\<lparr>forceStopped := False, isProcessing := True\<rparr>) s1),
                      None)))"

section \<open>The object returned to the user\<close>

definition add :: "nat \<Rightarrow> 'm \<Rightarrow> ('m, 'd, 'e) sys \<Rightarrow> ('m, 'd, 'e) sys \<times> 'e option" where
  "add n m s =
     (let s1 = upd n (\<lambda>e. e\<lparr>messagePackets :=
                 messagePackets e @ [\<lparr>message = m, attempt = 0\<rparr>]\<rparr>) s
      in if autoStart (opts (eng n s1)) then startProcessing n s1 else (s1, None))"

definition start :: "nat \<Rightarrow> ('m, 'd, 'e) sys \<Rightarrow> ('m, 'd, 'e) sys \<times> 'e option" where
  "start n s = startProcessing n s"

definition stop :: "nat \<Rightarrow> ('m, 'd, 'e) sys \<Rightarrow> ('m, 'd, 'e) sys \<times> 'e option" where
  "stop n s =
     (let s1 = upd n (\<lambda>e. e\<lparr>isProcessing := False\<rparr>) s
      in if \<not> hasMessages (eng n s1) then emit_finished n s1 else (s1, None))"

definition clear :: "nat \<Rightarrow> ('m, 'd, 'e) sys \<Rightarrow> ('m, 'd, 'e) sys \<times> 'e option" where
  "clear n s =
     emit_finished n (upd n (\<lambda>e. e\<lparr>messagePackets := [], isProcessing := False\<rparr>) s)"

text \<open>
  \<^verbatim>\<open>nextStop\<close>: \<^verbatim>\<open>while (isProcessing) await\<close> a timer of \<^verbatim>\<open>nextStopCheckFrequency\<close>;
  the promise resolves when the loop ends.
\<close>

definition nextStop :: "nat \<Rightarrow> ('m, 'd, 'e) sys \<Rightarrow> ('m, 'd, 'e) sys" where
  "nextStop n s =
     (if isProcessing (eng n s)
      then setTimeout (nextStopCheckFrequency (opts (eng n s))) (NextStopWake n) s
      else observe (Resolved n) s)"

definition addEventListener :: "nat \<Rightarrow> kind \<Rightarrow> nat \<Rightarrow> ('m, 'd, 'e) sys \<Rightarrow> ('m, 'd, 'e) sys" where
  "addEventListener n event i =
     upd n (\<lambda>e. e\<lparr>listeners := (listeners e)(event := listeners e event @ [User i])\<rparr>)"

text \<open>
  \<^verbatim>\<open>indexOf\<close> and \<^verbatim>\<open>splice(index, 1)\<close>: the first occurrence goes. The user holds
  no reference to the engine's own listeners, so the argument is one of their callbacks.
\<close>

definition removeEventListener :: "nat \<Rightarrow> kind \<Rightarrow> nat \<Rightarrow> ('m, 'd, 'e) sys \<Rightarrow> ('m, 'd, 'e) sys" where
  "removeEventListener n event i =
     upd n (\<lambda>e. e\<lparr>listeners := (listeners e)(event := remove1 (User i) (listeners e event))\<rparr>)"

text \<open>
  \<^verbatim>\<open>QBall(processor, options)\<close>: the body of the function, in its order. The new engine
  takes the next free address, which is the reference the caller gets.
\<close>

fun option_listener :: "nat option \<Rightarrow> listener list" where
  "option_listener None = []"
| "option_listener (Some i) = [User i]"

fun initial_listeners :: "('m, 'd, 'e) options \<Rightarrow> kind \<Rightarrow> listener list" where
  "initial_listeners opt Error = Internal # option_listener (onError opt)"
| "initial_listeners opt Finished = Internal # option_listener (onFinished opt)"
| "initial_listeners opt Processed = Internal # option_listener (onProcessed opt)"
| "initial_listeners opt Retry = option_listener (onRetry opt)"
| "initial_listeners opt Started = option_listener (onStarted opt)"

definition new_engine :: "('m, 'd, 'e) options \<Rightarrow> ('m, 'd, 'e) engine" where
  "new_engine opt =
     \<lparr> opts = opt, isProcessing = False, forceStopped = False,
       messagePackets = map (\<lambda>m. \<lparr>message = m, attempt = 0\<rparr>) (messages opt),
       listeners = initial_listeners opt,
       workerObjects = replicate (workers opt) \<lparr>isWorking = False, isAwaitingRetry = False\<rparr>,
       invocations = 0 \<rparr>"

definition QBall :: "('m, 'd, 'e) options \<Rightarrow> ('m, 'd, 'e) sys \<Rightarrow> ('m, 'd, 'e) sys \<times> 'e option" where
  "QBall opt s =
     (let n = nengines s;
          s1 = s\<lparr>engines := (engines s)(n := new_engine opt), nengines := Suc n\<rparr>
      in if autoStart opt \<and> hasMessages (eng n s1) then startProcessing n s1 else (s1, None))"

section \<open>The rest of \<^verbatim>\<open>process\<close>, and the timers of a retry\<close>

definition finish_process :: "nat \<Rightarrow> nat \<Rightarrow> ('m, 'd, 'e) sys \<Rightarrow> ('m, 'd, 'e) sys" where
  "finish_process n w s = enqueue (AfterProcess n w) (set_isWorking n w False s)"

text \<open>
  The \<^verbatim>\<open>catch\<close> block. An exception raised inside it (by a listener of \<^verbatim>\<open>retry\<close> or
  \<^verbatim>\<open>error\<close>, or out of \<^verbatim>\<open>dlq.add\<close>) rejects the promise of \<^verbatim>\<open>process\<close>; the
  \<^verbatim>\<open>await\<close> in \<^verbatim>\<open>start\<close> throws it again, and \<^verbatim>\<open>isWorking\<close> stays set.
\<close>

definition handle_failure ::
  "nat \<Rightarrow> nat \<Rightarrow> 'm packet \<Rightarrow> 'e \<Rightarrow> ('m, 'd, 'e) sys \<Rightarrow> ('m, 'd, 'e) sys" where
  "handle_failure n w p x s =
     (let s1 = debugLog n (ErrorProcessing (attempt p) (message p) x) s;
          opt = opts (eng n s1)
      in if attempt p < redriveCount opt
         then (let delay = redriveDelay opt (attempt p) (message p)
               in case emit n (RetryP (message p) (attempt p) delay) s1 of
                    (s2, Some y) \<Rightarrow> observe (Unhandled n y) s2
                  | (s2, None) \<Rightarrow>
                      finish_process n w
                        (setTimeout delay (RetryPush n w p) (set_isAwaitingRetry n w True s2)))
         else (case emit n (ErrorP x) s1 of
                 (s2, Some y) \<Rightarrow> observe (Unhandled n y) s2
               | (s2, None) \<Rightarrow>
                   (case dlq opt of
                      None \<Rightarrow> finish_process n w s2
                    | Some q \<Rightarrow>
                        (case add q (message p) s2 of
                           (s3, Some y) \<Rightarrow> observe (Unhandled n y) s3
                         | (s3, None) \<Rightarrow> finish_process n w s3))))"

text \<open>
  The continuation of \<^verbatim>\<open>process\<close> after the \<^verbatim>\<open>await\<close>. \<^verbatim>\<open>emitters.processed(data)\<close>
  is inside the \<^verbatim>\<open>try\<close>: an exception of a \<^verbatim>\<open>processed\<close> listener is caught like
  a rejection of the processor.
\<close>

definition resume ::
  "nat \<Rightarrow> nat \<Rightarrow> 'm packet \<Rightarrow> 'e + 'd \<Rightarrow> ('m, 'd, 'e) sys \<Rightarrow> ('m, 'd, 'e) sys" where
  "resume n w p outcome s =
     (case outcome of
        Inl x \<Rightarrow> handle_failure n w p x s
      | Inr data \<Rightarrow>
          (case emit n (ProcessedP data) s of
             (s1, Some x) \<Rightarrow> handle_failure n w p x s1
           | (s1, None) \<Rightarrow> finish_process n w s1))"

text \<open>
  \<^verbatim>\<open>setTimeout(() => { messagePackets.push(messagePacket); setTimeout(() => {
  startProcessing(); workerObject.isAwaitingRetry = false; }, 0); }, delay)\<close>
\<close>

definition retry_push :: "nat \<Rightarrow> nat \<Rightarrow> 'm packet \<Rightarrow> ('m, 'd, 'e) sys \<Rightarrow> ('m, 'd, 'e) sys" where
  "retry_push n w p s =
     setTimeout 0 (RetryRestart n w)
       (upd n (\<lambda>e. e\<lparr>messagePackets := messagePackets e @ [p]\<rparr>) s)"

definition retry_restart :: "nat \<Rightarrow> nat \<Rightarrow> ('m, 'd, 'e) sys \<Rightarrow> ('m, 'd, 'e) sys" where
  "retry_restart n w s =
     (case startProcessing n s of
        (s1, Some x) \<Rightarrow> observe (Unhandled n x) s1
      | (s1, None) \<Rightarrow> set_isAwaitingRetry n w False s1)"

section \<open>The event loop\<close>

fun exec :: "('m, 'd, 'e) task \<Rightarrow> ('m, 'd, 'e) sys \<Rightarrow> ('m, 'd, 'e) sys" where
  "exec (Settle n w p outcome) s = enqueue (Resume n w p outcome) s"
| "exec (Resume n w p outcome) s = resume n w p outcome s"
| "exec (AfterProcess n w) s = setTimeout 1 (Wake n w) s"
| "exec (Wake n w) s = enqueue (Loop n w) s"
| "exec (Loop n w) s = worker_loop n w s"
| "exec (RetryPush n w p) s = retry_push n w p s"
| "exec (RetryRestart n w) s = retry_restart n w s"
| "exec (NextStopWake n) s = enqueue (NextStopLoop n) s"
| "exec (NextStopLoop n) s = nextStop n s"

text \<open>
  The timer that fires next is the one with the least due time, and among those the
  one set first.
\<close>

fun least_due :: "(nat \<times> 'a) list \<Rightarrow> nat" where
  "least_due [] = 0"
| "least_due [(d, t)] = d"
| "least_due ((d, t) # ts) = min d (least_due ts)"

fun take_due :: "nat \<Rightarrow> (nat \<times> 'a) list \<Rightarrow> ('a \<times> (nat \<times> 'a) list) option" where
  "take_due d [] = None"
| "take_due d ((d', t) # ts) =
     (if d' = d then Some (t, ts)
      else (case take_due d ts of
              None \<Rightarrow> None
            | Some (t', ts') \<Rightarrow> Some (t', (d', t) # ts')))"

definition step :: "('m, 'd, 'e) sys \<Rightarrow> ('m, 'd, 'e) sys option" where
  "step s =
     (case microtasks s of
        t # ts \<Rightarrow> Some (exec t (s\<lparr>microtasks := ts\<rparr>))
      | [] \<Rightarrow>
          (case take_due (least_due (timers s)) (timers s) of
             None \<Rightarrow> None
           | Some (t, ts) \<Rightarrow>
               Some (exec t (s\<lparr>timers := ts, now := max (now s) (least_due (timers s))\<rparr>))))"

text \<open>
  Running until nothing is left to do. The fuel bounds the number of tasks; \<open>None\<close>
  says that the fuel ran out before the loop was idle.
\<close>

fun run :: "nat \<Rightarrow> ('m, 'd, 'e) sys \<Rightarrow> ('m, 'd, 'e) sys option" where
  "run 0 s = (case step s of None \<Rightarrow> Some s | Some s' \<Rightarrow> None)"
| "run (Suc k) s = (case step s of None \<Rightarrow> Some s | Some s' \<Rightarrow> run k s')"

definition boot :: "(nat \<Rightarrow> 'e option) \<Rightarrow> ('m, 'd, 'e) sys" where
  "boot r = \<lparr> engines = (\<lambda>n. undefined), nengines = 0, raises = r, now = 0,
              microtasks = [], timers = [], trace = [] \<rparr>"

section \<open>Notions used in the statements\<close>

text \<open>
  What no operation of the engine changes: the listener lists and the options of every
  engine, the behaviour of the user's callbacks, and the number of engines. (Only
  \<^verbatim>\<open>addEventListener\<close>, \<^verbatim>\<open>removeEventListener\<close> and the creation of an engine do.)
\<close>

definition static ::
  "('m, 'd, 'e) sys \<Rightarrow> (nat \<Rightarrow> (kind \<Rightarrow> listener list) \<times> ('m, 'd, 'e) options) \<times> (nat \<Rightarrow> 'e option) \<times> nat" where
  "static s = (\<lambda>n. (listeners (engines s n), opts (engines s n)), raises s, nengines s)"


text \<open>
  The calls of listeners of one kind on one engine, as they appear in a trace; the
  listeners of a list up to and including the first that raises; and what a listener
  raises: a user callback what its behaviour says, the engine's own listener of
  \<^verbatim>\<open>error\<close> what the \<^verbatim>\<open>finished\<close> listeners raise when \<^verbatim>\<open>stopOnError\<close> is set
  (it emits \<^verbatim>\<open>finished\<close> itself), the other listeners of the engine nothing.
\<close>

fun is_call :: "nat \<Rightarrow> kind \<Rightarrow> ('m, 'd, 'e) event \<Rightarrow> bool" where
  "is_call n k (Called n' l p) = (n' = n \<and> kind_of p = k)"
| "is_call n k (Logged n' line) = False"
| "is_call n k (Invoked n' m a) = False"
| "is_call n k (Emitted n' p) = False"
| "is_call n k (Unhandled n' x) = False"
| "is_call n k (Resolved n') = False"


definition calls :: "nat \<Rightarrow> kind \<Rightarrow> ('m, 'd, 'e) event list \<Rightarrow> ('m, 'd, 'e) event list" where
  "calls n k tr = filter (is_call n k) tr"


fun upto_raise :: "('a \<Rightarrow> 'e option) \<Rightarrow> 'a list \<Rightarrow> 'a list" where
  "upto_raise T [] = []"
| "upto_raise T (l # ls) = (case T l of None \<Rightarrow> l # upto_raise T ls | Some x \<Rightarrow> [l])"


fun first_raise :: "('a \<Rightarrow> 'e option) \<Rightarrow> 'a list \<Rightarrow> 'e option" where
  "first_raise T [] = None"
| "first_raise T (l # ls) = (case T l of None \<Rightarrow> first_raise T ls | Some x \<Rightarrow> Some x)"


fun outcome_of :: "(nat \<Rightarrow> 'e option) \<Rightarrow> 'e option \<Rightarrow> listener \<Rightarrow> 'e option" where
  "outcome_of r ix Internal = ix"
| "outcome_of r ix (User i) = r i"


definition throws :: "nat \<Rightarrow> kind \<Rightarrow> ('m, 'd, 'e) sys \<Rightarrow> listener \<Rightarrow> 'e option" where
  "throws n k s =
     outcome_of (raises s)
       (if k = Error \<and> stopOnError (opts (eng n s))
        then first_raise (outcome_of (raises s) None) (listeners (eng n s) Finished)
        else None)"


fun is_dispatch :: "('m, 'd, 'e) event \<Rightarrow> bool" where
  "is_dispatch (Invoked n m a) = True"
| "is_dispatch (Logged n line) = False"
| "is_dispatch (Emitted n p) = False"
| "is_dispatch (Called n l p) = False"
| "is_dispatch (Unhandled n x) = False"
| "is_dispatch (Resolved n) = False"

definition dispatches :: "('m, 'd, 'e) event list \<Rightarrow> ('m, 'd, 'e) event list" where
  "dispatches tr = filter is_dispatch tr"

definition quiet :: "('m, 'd, 'e) sys \<Rightarrow> ('m, 'd, 'e) sys \<Rightarrow> bool" where
  "quiet s s' \<longleftrightarrow>
     microtasks s' = microtasks s \<and> timers s' = timers s \<and> now s' = now s \<and>
     static s' = static s \<and> dispatches (trace s') = dispatches (trace s) \<and>
     (\<exists>ext. trace s' = trace s @ ext) \<and>
     (\<forall>m. messagePackets (eng m s') = messagePackets (eng m s) \<and>
          workerObjects (eng m s') = workerObjects (eng m s) \<and>
          invocations (eng m s') = invocations (eng m s) \<and>
          (isProcessing (eng m s') \<longrightarrow> isProcessing (eng m s)))"

text \<open>The publications of one kind on one engine, as they appear in a trace.\<close>

fun is_publication :: "nat \<Rightarrow> kind \<Rightarrow> ('m, 'd, 'e) event \<Rightarrow> bool" where
  "is_publication n k (Emitted n' p) = (n' = n \<and> kind_of p = k)"
| "is_publication n k (Logged n' line) = False"
| "is_publication n k (Invoked n' m a) = False"
| "is_publication n k (Called n' l p) = False"
| "is_publication n k (Unhandled n' x) = False"
| "is_publication n k (Resolved n') = False"

definition publications :: "nat \<Rightarrow> kind \<Rightarrow> ('m, 'd, 'e) event list \<Rightarrow> ('m, 'd, 'e) event list" where
  "publications n k tr = filter (is_publication n k) tr"

text \<open>
  The states a program can bring about: it creates engines (a dead letter queue is an
  engine created before), calls the methods of the engines it has created, and between
  its calls the event loop runs tasks.
\<close>

inductive reachable :: "('m, 'd, 'e) sys \<Rightarrow> bool" where
  r_boot: "reachable (boot r)"
| r_QBall: "reachable s \<Longrightarrow> (\<forall>q. dlq opt = Some q \<longrightarrow> q < nengines s) \<Longrightarrow> reachable (fst (QBall opt s))"
| r_add: "reachable s \<Longrightarrow> n < nengines s \<Longrightarrow> reachable (fst (add n m s))"
| r_start: "reachable s \<Longrightarrow> n < nengines s \<Longrightarrow> reachable (fst (start n s))"
| r_stop: "reachable s \<Longrightarrow> n < nengines s \<Longrightarrow> reachable (fst (stop n s))"
| r_clear: "reachable s \<Longrightarrow> n < nengines s \<Longrightarrow> reachable (fst (clear n s))"
| r_nextStop: "reachable s \<Longrightarrow> n < nengines s \<Longrightarrow> reachable (nextStop n s)"
| r_addEventListener:
    "reachable s \<Longrightarrow> n < nengines s \<Longrightarrow> reachable (addEventListener n k i s)"
| r_removeEventListener:
    "reachable s \<Longrightarrow> n < nengines s \<Longrightarrow> reachable (removeEventListener n k i s)"
| r_step: "reachable s \<Longrightarrow> step s = Some s' \<Longrightarrow> reachable s'"

definition internal_first :: "listener list \<Rightarrow> bool" where
  "internal_first ls \<longleftrightarrow> (\<exists>rest. ls = Internal # rest \<and> Internal \<notin> set rest)"

definition wellformed_engine :: "nat \<Rightarrow> ('m, 'd, 'e) engine \<Rightarrow> bool" where
  "wellformed_engine n e \<longleftrightarrow>
     internal_first (listeners e Processed) \<and>
     internal_first (listeners e Error) \<and>
     internal_first (listeners e Finished) \<and>
     Internal \<notin> set (listeners e Retry) \<and>
     Internal \<notin> set (listeners e Started) \<and>
     (\<forall>q. dlq (opts e) = Some q \<longrightarrow> q < n)"

definition wellformed :: "('m, 'd, 'e) sys \<Rightarrow> bool" where
  "wellformed s \<longleftrightarrow> (\<forall>n < nengines s. wellformed_engine n (eng n s))"

definition acts_on :: "nat \<Rightarrow> ('m, 'd, 'e) sys \<Rightarrow> ('m, 'd, 'e) sys \<Rightarrow> bool" where
  "acts_on n s s' \<longleftrightarrow>
     (\<forall>m. m \<noteq> n \<longrightarrow> eng m s' = eng m s) \<and>
     length (workerObjects (eng n s')) = length (workerObjects (eng n s)) \<and>
     (\<exists>ext. trace s' = trace s @ ext)"

text \<open>
  What a program does with the engines: the calls of the public methods, the creation
  of an engine, and letting the event loop run one task. Each call gives back the
  exception it raised, if any.
\<close>

datatype ('m, 'd, 'e) call =
    Create "('m, 'd, 'e) options"
  | Add nat 'm
  | Start nat
  | Stop nat
  | Clear nat
  | NextStop nat
  | AddEventListener nat kind nat
  | RemoveEventListener nat kind nat
  | Tick

fun perform :: "('m, 'd, 'e) call \<Rightarrow> ('m, 'd, 'e) sys \<Rightarrow> ('m, 'd, 'e) sys \<times> 'e option" where
  "perform (Create opt) s = QBall opt s"
| "perform (Add n m) s = add n m s"
| "perform (Start n) s = start n s"
| "perform (Stop n) s = stop n s"
| "perform (Clear n) s = clear n s"
| "perform (NextStop n) s = (nextStop n s, None)"
| "perform (AddEventListener n k i) s = (addEventListener n k i s, None)"
| "perform (RemoveEventListener n k i) s = (removeEventListener n k i s, None)"
| "perform Tick s = (case step s of None \<Rightarrow> (s, None) | Some s' \<Rightarrow> (s', None))"

fun perform_all ::
  "('m, 'd, 'e) call list \<Rightarrow> ('m, 'd, 'e) sys \<Rightarrow> ('m, 'd, 'e) sys \<times> 'e option list" where
  "perform_all [] s = (s, [])"
| "perform_all (c # cs) s =
     (case perform c s of (s1, r) \<Rightarrow>
        (case perform_all cs s1 of (s2, rs) \<Rightarrow> (s2, r # rs)))"

text \<open>
  Two states are alike when they differ at most in the \<^verbatim>\<open>forceStopped\<close> flags of
  their engines.
\<close>

definition flagless :: "('m, 'd, 'e) engine \<Rightarrow> ('m, 'd, 'e) engine" where
  "flagless e = e\<lparr>forceStopped := False\<rparr>"

definition alike :: "('m, 'd, 'e) sys \<Rightarrow> ('m, 'd, 'e) sys \<Rightarrow> bool" where
  "alike s t \<longleftrightarrow>
     microtasks s = microtasks t \<and> timers s = timers t \<and> now s = now t \<and>
     trace s = trace t \<and> raises s = raises t \<and> nengines s = nengines t \<and>
     (\<forall>n. flagless (engines s n) = flagless (engines t n))"

text \<open>
  Where the packets of an engine are: in its queue, in flight (given to the processor,
  the rest of \<^verbatim>\<open>process\<close> pending as a task), or held by the timer of a retry. And the
  calls of its processor recorded in a trace, each with the message and the attempt
  number passed on.
\<close>

fun in_flight :: "nat \<Rightarrow> ('m, 'd, 'e) task \<Rightarrow> 'm packet multiset" where
  "in_flight n (Settle n' w p outcome) = (if n' = n then {#p#} else {#})"
| "in_flight n (Resume n' w p outcome) = (if n' = n then {#p#} else {#})"
| "in_flight n (AfterProcess n' w) = {#}"
| "in_flight n (Wake n' w) = {#}"
| "in_flight n (Loop n' w) = {#}"
| "in_flight n (RetryPush n' w p) = {#}"
| "in_flight n (RetryRestart n' w) = {#}"
| "in_flight n (NextStopWake n') = {#}"
| "in_flight n (NextStopLoop n') = {#}"

fun held :: "nat \<Rightarrow> ('m, 'd, 'e) task \<Rightarrow> 'm packet multiset" where
  "held n (RetryPush n' w p) = (if n' = n then {#p#} else {#})"
| "held n (Settle n' w p outcome) = {#}"
| "held n (Resume n' w p outcome) = {#}"
| "held n (AfterProcess n' w) = {#}"
| "held n (Wake n' w) = {#}"
| "held n (Loop n' w) = {#}"
| "held n (RetryRestart n' w) = {#}"
| "held n (NextStopWake n') = {#}"
| "held n (NextStopLoop n') = {#}"

definition queued :: "nat \<Rightarrow> ('m, 'd, 'e) sys \<Rightarrow> 'm packet multiset" where
  "queued n s = mset (messagePackets (eng n s))"

definition flying :: "nat \<Rightarrow> ('m, 'd, 'e) sys \<Rightarrow> 'm packet multiset" where
  "flying n s =
     sum_list (map (in_flight n) (microtasks s)) + sum_list (map (in_flight n \<circ> snd) (timers s))"

definition waiting :: "nat \<Rightarrow> ('m, 'd, 'e) sys \<Rightarrow> 'm packet multiset" where
  "waiting n s =
     sum_list (map (held n) (microtasks s)) + sum_list (map (held n \<circ> snd) (timers s))"

fun dispatched :: "nat \<Rightarrow> ('m, 'd, 'e) event list \<Rightarrow> ('m \<times> nat) list" where
  "dispatched n [] = []"
| "dispatched n (Invoked n' m a # tr) = (if n' = n then (m, a) # dispatched n tr else dispatched n tr)"
| "dispatched n (Logged n' line # tr) = dispatched n tr"
| "dispatched n (Emitted n' p # tr) = dispatched n tr"
| "dispatched n (Called n' l p # tr) = dispatched n tr"
| "dispatched n (Unhandled n' x # tr) = dispatched n tr"
| "dispatched n (Resolved n' # tr) = dispatched n tr"

type_synonym 'm snapshot =
  "'m packet multiset \<times> 'm packet multiset \<times> 'm packet multiset \<times> ('m \<times> nat) list"

definition snapshot :: "nat \<Rightarrow> ('m, 'd, 'e) sys \<Rightarrow> 'm snapshot" where
  "snapshot n s = (queued n s, flying n s, waiting n s, dispatched n (trace s))"

text \<open>
  The life of a packet, one move at a time. A packet enters the queue with the attempt
  counter 0. A dispatch takes a packet from the queue, increments its counter and calls
  the processor, which is the only move that changes a counter and the only one that
  adds a call of the processor. A packet in flight is either held for a retry, or it
  leaves: that is its terminal outcome. A held packet goes back to the queue. A queued
  packet can be discarded (\<^verbatim>\<open>clear\<close>).
\<close>

inductive move :: "'m snapshot \<Rightarrow> 'm snapshot \<Rightarrow> bool" where
  submit: "move (Q, F, R, D) (add_mset \<lparr>message = m, attempt = 0\<rparr> Q, F, R, D)"
| dispatch:
    "p \<in># Q \<Longrightarrow>
     move (Q, F, R, D)
       (Q - {#p#}, add_mset (p\<lparr>attempt := Suc (attempt p)\<rparr>) F, R,
        D @ [(message p, Suc (attempt p))])"
| retry: "p \<in># F \<Longrightarrow> move (Q, F, R, D) (Q, F - {#p#}, add_mset p R, D)"
| requeue: "p \<in># R \<Longrightarrow> move (Q, F, R, D) (add_mset p Q, F, R - {#p#}, D)"
| outcome: "p \<in># F \<Longrightarrow> move (Q, F, R, D) (Q, F - {#p#}, R, D)"
| discard: "p \<in># Q \<Longrightarrow> move (Q, F, R, D) (Q - {#p#}, F, R, D)"

definition lifecycle :: "'m snapshot \<Rightarrow> 'm snapshot \<Rightarrow> bool" where
  "lifecycle = rtranclp move"

text \<open>The snapshot of a state to which a task is added.\<close>

fun with_task :: "nat \<Rightarrow> ('m, 'd, 'e) task \<Rightarrow> 'm snapshot \<Rightarrow> 'm snapshot" where
  "with_task n t (Q, F, R, D) = (Q, F + in_flight n t, R + held n t, D)"

text \<open>
  The snapshot an operation starts from. The creation of an engine gives the next free
  address a queue with one packet for each seeded message, all with the counter 0.
\<close>

fun before :: "nat \<Rightarrow> ('m, 'd, 'e) call \<Rightarrow> ('m, 'd, 'e) sys \<Rightarrow> 'm snapshot" where
  "before n (Create opt) s =
     (if n = nengines s
      then (mset (map (\<lambda>m. \<lparr>message = m, attempt = 0\<rparr>) (messages opt)),
            flying n s, waiting n s, dispatched n (trace s))
      else snapshot n s)"
| "before n c s = snapshot n s"

section \<open>Frame lemmas\<close>

lemma eng_upd [simp]: "eng m (upd n f s) = (if m = n then f (eng n s) else eng m s)"
  by (simp add: eng_def upd_def)

lemma upd_fields [simp]:
  "microtasks (upd n f s) = microtasks s"
  "timers (upd n f s) = timers s"
  "now (upd n f s) = now s"
  "trace (upd n f s) = trace s"
  "raises (upd n f s) = raises s"
  "nengines (upd n f s) = nengines s"
  by (simp_all add: upd_def)

lemma observe_fields [simp]:
  "eng n (observe ev s) = eng n s"
  "raises (observe ev s) = raises s"
  "microtasks (observe ev s) = microtasks s"
  "timers (observe ev s) = timers s"
  "now (observe ev s) = now s"
  "trace (observe ev s) = trace s @ [ev]"
  "nengines (observe ev s) = nengines s"
  by (simp_all add: observe_def eng_def)

lemma setTimeout_fields [simp]:
  "eng n (setTimeout d t s) = eng n s"
  "microtasks (setTimeout d t s) = microtasks s"
  "timers (setTimeout d t s) = timers s @ [(now s + d, t)]"
  "now (setTimeout d t s) = now s"
  "trace (setTimeout d t s) = trace s"
  "raises (setTimeout d t s) = raises s"
  "nengines (setTimeout d t s) = nengines s"
  by (simp_all add: setTimeout_def eng_def)

lemma enqueue_fields [simp]:
  "eng n (enqueue t s) = eng n s"
  "microtasks (enqueue t s) = microtasks s @ [t]"
  "timers (enqueue t s) = timers s"
  "now (enqueue t s) = now s"
  "trace (enqueue t s) = trace s"
  "raises (enqueue t s) = raises s"
  "nengines (enqueue t s) = nengines s"
  by (simp_all add: enqueue_def eng_def)

lemma calls_simps [simp]:
  "calls n k [] = []"
  "calls n k (ev # tr) = (if is_call n k ev then ev # calls n k tr else calls n k tr)"
  "calls n k (tr @ tr') = calls n k tr @ calls n k tr'"
  by (simp_all add: calls_def)

lemma dispatches_simps [simp]:
  "dispatches [] = []"
  "dispatches (ev # tr) = (if is_dispatch ev then ev # dispatches tr else dispatches tr)"
  "dispatches (tr @ tr') = dispatches tr @ dispatches tr'"
  by (simp_all add: dispatches_def)

lemma static_upd:
  "(\<And>e. listeners (f e) = listeners e) \<Longrightarrow> (\<And>e. opts (f e) = opts e) \<Longrightarrow> static (upd n f s) = static s"
  by (simp add: static_def upd_def fun_eq_iff)


lemma static_observe [simp]: "static (observe ev s) = static s"
  by (simp add: static_def observe_def)


lemma static_debugLog [simp]: "static (debugLog n l s) = static s"
  by (simp add: debugLog_def)


lemma static_setTimeout [simp]: "static (setTimeout d t s) = static s"
  by (simp add: static_def setTimeout_def)


lemma static_enqueue [simp]: "static (enqueue t s) = static s"
  by (simp add: static_def enqueue_def)


lemma static_set_isWorking [simp]: "static (set_isWorking n w b s) = static s"
  by (simp add: set_isWorking_def static_upd)


lemma static_set_isAwaitingRetry [simp]: "static (set_isAwaitingRetry n w b s) = static s"
  by (simp add: set_isAwaitingRetry_def static_upd)


lemma static_raises: "static s' = static s \<Longrightarrow> raises s' = raises s"
  by (simp add: static_def)


lemma static_listeners: "static s' = static s \<Longrightarrow> listeners (eng n s') = listeners (eng n s)"
  by (simp add: static_def eng_def fun_eq_iff)


lemma static_opts: "static s' = static s \<Longrightarrow> opts (eng n s') = opts (eng n s)"
  by (simp add: static_def eng_def fun_eq_iff)


lemma static_nengines: "static s' = static s \<Longrightarrow> nengines s' = nengines s"
  by (simp add: static_def)


lemma deliver_preserves:
  assumes "P s"
    and "\<And>s l. P s \<Longrightarrow> P (observe (Called n l p) s)"
    and "\<And>s. P s \<Longrightarrow> P (fst (internal s))"
  shows "P (fst (deliver internal n p ls s))"
  using assms(1)
proof (induction ls arbitrary: s)
  case Nil
  then show ?case by simp
next
  case (Cons l ls)
  show ?case
  proof (cases l)
    case Internal
    obtain s' r where i: "internal (observe (Called n Internal p) s) = (s', r)"
      by (cases "internal (observe (Called n Internal p) s)")
    have "P s'"
      using assms(3) [OF assms(2) [OF Cons.prems], of Internal] i by simp
    then show ?thesis
      using Internal i Cons.IH [of s'] by (cases r) simp_all
  next
    case (User i)
    have "P (observe (Called n (User i) p) s)"
      using assms(2) [OF Cons.prems] .
    then show ?thesis
      using User Cons.IH [of "observe (Called n (User i) p) s"]
      by (cases "raises s i") simp_all
  qed
qed


lemma static_deliver:
  "(\<And>s. static (fst (internal s)) = static s) \<Longrightarrow> static (fst (deliver internal n p ls s)) = static s"
  by (rule deliver_preserves [where P = "\<lambda>s'. static s' = static s"]) simp_all


lemma static_publish:
  "(\<And>s. static (fst (internal s)) = static s) \<Longrightarrow> static (fst (publish internal n p s)) = static s"
  by (simp add: publish_def static_deliver)


lemma static_on_finished [simp]: "static (fst (on_finished n s)) = static s"
  by (simp add: on_finished_def static_upd)


lemma static_emit_finished [simp]: "static (fst (emit_finished n s)) = static s"
  by (simp add: emit_finished_def static_publish)


lemma static_on_processed [simp]: "static (fst (on_processed n s)) = static s"
  by (simp add: on_processed_def split: prod.splits option.splits)
    (metis fst_conv static_emit_finished)


lemma static_on_error [simp]: "static (fst (on_error n s)) = static s"
  by (simp add: on_error_def static_upd)


lemma static_internal_of [simp]: "static (fst (internal_of n k s)) = static s"
  by (cases k) (simp_all add: on_nothing_def)


lemma static_emit [simp]: "static (fst (emit n p s)) = static s"
  by (simp add: emit_def static_publish)






lemma deliver_calls:
  assumes "kind_of p = k"
    and "\<And>s. static s = st \<Longrightarrow> calls n k (trace (fst (internal s))) = calls n k (trace s)"
    and "\<And>s. static s = st \<Longrightarrow> static (fst (internal s)) = st"
    and "\<And>s. static s = st \<Longrightarrow> snd (internal s) = ix"
    and "static s = st"
  shows "calls n k (trace (fst (deliver internal n p ls s))) =
           calls n k (trace s) @ map (\<lambda>l. Called n l p) (upto_raise (outcome_of (raises s) ix) ls)
         \<and> snd (deliver internal n p ls s) = first_raise (outcome_of (raises s) ix) ls"
  using assms(5)
proof (induction ls arbitrary: s)
  case Nil
  then show ?case by simp
next
  case (Cons l ls)
  show ?case
  proof (cases l)
    case Internal
    let ?s1 = "observe (Called n Internal p) s"
    obtain s' r where i: "internal ?s1 = (s', r)"
      by (cases "internal ?s1")
    have st1: "static ?s1 = st" using Cons.prems by simp
    have r: "r = ix" using assms(4) [OF st1] i by simp
    have st': "static s' = st" using assms(3) [OF st1] i by simp
    have c': "calls n k (trace s') = calls n k (trace s) @ [Called n Internal p]"
      using assms(2) [OF st1] i assms(1) by simp
    have rs: "raises s' = raises s"
      using st' Cons.prems by (metis static_raises)
    show ?thesis
    proof (cases ix)
      case None
      then show ?thesis
        using Internal i r c' rs Cons.IH [OF st'] by simp
    next
      case (Some x)
      then show ?thesis
        using Internal i r c' by simp
    qed
  next
    case (User i)
    let ?s1 = "observe (Called n (User i) p) s"
    have st1: "static ?s1 = st" using Cons.prems by simp
    have c1: "calls n k (trace ?s1) = calls n k (trace s) @ [Called n (User i) p]"
      using assms(1) by simp
    show ?thesis
    proof (cases "raises s i")
      case None
      then show ?thesis
        using User c1 Cons.IH [OF st1] by simp
    next
      case (Some x)
      then show ?thesis
        using User c1 by simp
    qed
  qed
qed





lemma static_eq_upd: 
  "(\<And>e. listeners (f e) = listeners e) \<Longrightarrow> (\<And>e. opts (f e) = opts e) \<Longrightarrow> static s = st \<Longrightarrow> static (upd n f s) = st"
  by (simp add: static_upd)


lemma emit_finished_delivery:
  "calls n Finished (trace (fst (emit_finished n s))) =
     calls n Finished (trace s) @
       map (\<lambda>l. Called n l FinishedP) (upto_raise (outcome_of (raises s) None) (listeners (eng n s) Finished))
   \<and> snd (emit_finished n s) = first_raise (outcome_of (raises s) None) (listeners (eng n s) Finished)"
proof -
  let ?s1 = "observe (Emitted n FinishedP) s"
  have "calls n Finished (trace (fst (deliver (on_finished n) n FinishedP (listeners (eng n s) Finished) ?s1))) =
           calls n Finished (trace ?s1) @ map (\<lambda>l. Called n l FinishedP) (upto_raise (outcome_of (raises ?s1) None) (listeners (eng n s) Finished))
         \<and> snd (deliver (on_finished n) n FinishedP (listeners (eng n s) Finished) ?s1) = first_raise (outcome_of (raises ?s1) None) (listeners (eng n s) Finished)"
    by (rule deliver_calls [where st = "static s"]) (simp_all add: on_finished_def static_upd)
  then show ?thesis
    by (simp add: emit_finished_def publish_def)
qed


lemma calls_emit_finished:
  "k \<noteq> Finished \<Longrightarrow> calls n k (trace (fst (emit_finished n' s))) = calls n k (trace s)"
  unfolding emit_finished_def publish_def
  by (rule deliver_preserves [where P = "\<lambda>s'. calls n k (trace s') = calls n k (trace s)"])
    (simp_all add: on_finished_def)


lemma calls_on_processed:
  "k \<noteq> Finished \<Longrightarrow> calls n k (trace (fst (on_processed n' s))) = calls n k (trace s)"
proof -
  assume k: "k \<noteq> Finished"
  obtain s' r where e: "emit_finished n' s = (s', r)"
    by (cases "emit_finished n' s")
  then have "calls n k (trace s') = calls n k (trace s)"
    using calls_emit_finished [OF k, of n n' s] by simp
  then show ?thesis
    using e by (cases r) (simp_all add: on_processed_def)
qed


lemma snd_on_processed [simp]: "snd (on_processed n s) = None"
  by (simp add: on_processed_def split: prod.splits option.splits)


lemma calls_on_error:
  "k \<noteq> Finished \<Longrightarrow> calls n k (trace (fst (on_error n' s))) = calls n k (trace s)"
  by (simp add: on_error_def calls_emit_finished)


lemma snd_on_error:
  "snd (on_error n s) =
     (if stopOnError (opts (eng n s))
      then first_raise (outcome_of (raises s) None) (listeners (eng n s) Finished) else None)"
  by (simp add: on_error_def emit_finished_delivery upd_def eng_def)


lemma calls_internal_of:
  "calls n k (trace (fst (internal_of n k s))) = calls n k (trace s)"
  by (cases k) (simp_all add: calls_on_error calls_on_processed on_finished_def on_nothing_def)


lemma snd_internal_of:
  "snd (internal_of n k s) =
          (if k = Error \<and> stopOnError (opts (eng n s))
           then first_raise (outcome_of (raises s) None) (listeners (eng n s) Finished)
           else None)"
  by (cases k) (simp_all add: snd_on_error on_finished_def on_nothing_def)


lemma quiet_refl [simp]: "quiet s s"
  by (simp add: quiet_def)

lemma quiet_trans: "quiet s s' \<Longrightarrow> quiet s' s'' \<Longrightarrow> quiet s s''"
  by (auto simp: quiet_def)

lemma quiet_observe: "\<not> is_dispatch ev \<Longrightarrow> quiet s (observe ev s)"
  by (simp add: quiet_def dispatches_def)

lemma quiet_flags:
  "quiet s (upd n (\<lambda>e. e\<lparr>isProcessing := False\<rparr>) s)"
  "quiet s (upd n (\<lambda>e. e\<lparr>forceStopped := b\<rparr>) s)"
  by (simp_all add: quiet_def static_upd)

lemma quiet_debugLog: "quiet s (debugLog n line s)"
  by (simp add: debugLog_def quiet_observe)

lemma quiet_deliver:
  assumes "\<And>s. quiet s (fst (internal s))"
  shows "quiet s (fst (deliver internal n p ls s))"
proof (rule deliver_preserves [where P = "quiet s"])
  show "quiet s s" by simp
  show "\<And>s' l. quiet s s' \<Longrightarrow> quiet s (observe (Called n l p) s')"
    by (rule quiet_trans [OF _ quiet_observe]) simp_all
  show "\<And>s'. quiet s s' \<Longrightarrow> quiet s (fst (internal s'))"
    by (rule quiet_trans [OF _ assms])
qed

lemma quiet_publish:
  assumes "\<And>s. quiet s (fst (internal s))"
  shows "quiet s (fst (publish internal n p s))"
  unfolding publish_def
  by (rule quiet_trans [OF quiet_observe quiet_deliver [OF assms]]) simp

lemma quiet_emit_finished: "quiet s (fst (emit_finished n s))"
  unfolding emit_finished_def
  by (rule quiet_publish) (simp add: on_finished_def quiet_flags)

lemma quiet_on_processed: "quiet s (fst (on_processed n s))"
proof -
  obtain s' r where e: "emit_finished n s = (s', r)"
    by (cases "emit_finished n s")
  then have q: "quiet s s'"
    using quiet_emit_finished [of s n] by simp
  have "quiet s (observe (Unhandled n x) s')" for x
    by (rule quiet_trans [OF q quiet_observe]) simp
  then show ?thesis
    using e q by (cases r) (simp_all add: on_processed_def)
qed

lemma quiet_on_error: "quiet s (fst (on_error n s))"
  unfolding on_error_def
  by (auto intro: quiet_trans [OF quiet_flags(2) quiet_emit_finished])

lemma quiet_internal_of: "quiet s (fst (internal_of n k s))"
  by (cases k) (simp_all add: quiet_on_error quiet_on_processed on_nothing_def on_finished_def quiet_flags)

lemma quiet_emit: "quiet s (fst (emit n p s))"
  unfolding emit_def by (rule quiet_publish) (rule quiet_internal_of)

lemma trace_emit_finished:
  "\<exists>rest. trace (fst (emit_finished n s)) = trace s @ Emitted n FinishedP # rest"
proof -
  have "quiet (observe (Emitted n FinishedP) s)
          (fst (deliver (on_finished n) n FinishedP (listeners (eng n s) Finished) (observe (Emitted n FinishedP) s)))"
    by (rule quiet_deliver) (simp add: on_finished_def quiet_flags)
  then show ?thesis
    by (auto simp: quiet_def emit_finished_def publish_def)
qed

lemma quiet_startProcessing_empty:
  assumes "\<not> hasMessages (eng n s)"
  shows "quiet s (fst (startProcessing n s))"
proof (cases "isProcessing (eng n s) \<and> \<not> anyAwaitingRetry (eng n s)")
  case True
  then show ?thesis by (simp add: startProcessing_def quiet_debugLog)
next
  case False
  obtain s1 r where e: "emit n StartedP s = (s1, r)"
    by (cases "emit n StartedP s")
  then have q1: "quiet s s1"
    using quiet_emit [of s n StartedP] by simp
  then have empty: "\<not> hasMessages (eng n s1)"
    using assms by (simp add: quiet_def hasMessages_def)
  have "quiet s1 (fst (emit_finished n (debugLog n NoMessages s1)))"
    by (rule quiet_trans [OF quiet_debugLog quiet_emit_finished])
  then have "quiet s (fst (emit_finished n (debugLog n NoMessages s1)))"
    by (rule quiet_trans [OF q1])
  then show ?thesis
    using False e q1 empty by (cases r) (auto simp: startProcessing_def)
qed

lemma run_idle: "microtasks s = [] \<Longrightarrow> timers s = [] \<Longrightarrow> run k s = Some s"
  by (cases k) (simp_all add: step_def)

lemma quiet_clear:
  "quiet (upd n (\<lambda>e. e\<lparr>messagePackets := [], isProcessing := False\<rparr>) s) (fst (clear n s))"
  unfolding clear_def by (rule quiet_emit_finished)

lemmas engine_defs =
  QBall_def boot_def new_engine_def defaults_def start_def startProcessing_def emit_def publish_def
  emit_finished_def on_finished_def on_processed_def on_error_def on_nothing_def
  worker_start_def worker_loop_def process_def debugLog_def hasMessages_def anyAwaitingRetry_def
  set_isWorking_def set_isAwaitingRetry_def resume_def handle_failure_def finish_process_def
  retry_push_def retry_restart_def step_def add_def stop_def clear_def nextStop_def
  eng_def upd_def observe_def enqueue_def setTimeout_def

lemma static_process [simp]: "static (process n w p s) = static s"
  by (simp add: process_def Let_def split_beta static_upd)

lemma static_worker_loop [simp]: "static (worker_loop n w s) = static s"
  by (simp add: worker_loop_def split_beta static_upd split: list.splits option.splits)

lemma static_worker_start [simp]: "static (worker_start n w s) = static s"
  by (simp add: worker_start_def)

lemma static_start_workers [simp]: "static (start_workers n is s) = static s"
  by (induction "is" arbitrary: s) simp_all

lemma static_startProcessing [simp]: "static (fst (startProcessing n s)) = static s"
  by (simp add: startProcessing_def split_beta static_upd split: option.splits)

lemma static_add [simp]: "static (fst (add n m s)) = static s"
  by (simp add: add_def Let_def static_upd)

lemma static_start [simp]: "static (fst (start n s)) = static s"
  by (simp add: start_def)

lemma static_stop [simp]: "static (fst (stop n s)) = static s"
  by (simp add: stop_def Let_def static_upd)

lemma static_clear [simp]: "static (fst (clear n s)) = static s"
  by (simp add: clear_def static_upd)

lemma static_nextStop [simp]: "static (nextStop n s) = static s"
  by (simp add: nextStop_def)

lemma static_finish_process [simp]: "static (finish_process n w s) = static s"
  by (simp add: finish_process_def)

lemma static_handle_failure [simp]: "static (handle_failure n w p x s) = static s"
  by (simp add: handle_failure_def Let_def split_beta split: option.splits)

lemma static_resume [simp]: "static (resume n w p out s) = static s"
  by (simp add: resume_def split_beta split: sum.splits option.splits)

lemma static_retry_push [simp]: "static (retry_push n w p s) = static s"
  by (simp add: retry_push_def static_upd)

lemma static_retry_restart [simp]: "static (retry_restart n w s) = static s"
  by (simp add: retry_restart_def split_beta split: option.splits)

lemma static_exec [simp]: "static (exec t s) = static s"
  by (cases t) simp_all

lemma static_dequeue [simp]:
  "static (s\<lparr>microtasks := ts\<rparr>) = static s"
  "static (s\<lparr>timers := tm, now := t\<rparr>) = static s"
  by (simp_all add: static_def)

lemma static_step: "step s = Some s' \<Longrightarrow> static s' = static s"
  by (auto simp: step_def split: list.splits option.splits)

lemma publications_simps [simp]:
  "publications n k [] = []"
  "publications n k (ev # tr) =
     (if is_publication n k ev then ev # publications n k tr else publications n k tr)"
  "publications n k (tr @ tr') = publications n k tr @ publications n k tr'"
  by (simp_all add: publications_def)

lemma wellformed_static: "static s' = static s \<Longrightarrow> wellformed s \<Longrightarrow> wellformed s'"
  using static_listeners [of s' s] static_opts [of s' s] static_nengines [of s' s]
  by (simp add: wellformed_def wellformed_engine_def)

lemma internal_first_option [simp]: "internal_first (Internal # option_listener c)"
  by (cases c) (simp_all add: internal_first_def)

lemma not_internal_option [simp]: "Internal \<notin> set (option_listener c)"
  by (cases c) simp_all

lemma internal_first_append: "internal_first ls \<Longrightarrow> internal_first (ls @ [User i])"
  by (auto simp: internal_first_def)

lemma internal_first_remove1: "internal_first ls \<Longrightarrow> internal_first (remove1 (User i) ls)"
  by (auto simp: internal_first_def dest: notin_set_remove1)

lemma wellformed_boot: "wellformed (boot r)"
  by (simp add: wellformed_def boot_def)

lemma wellformed_new_engine:
  "\<forall>q. dlq opt = Some q \<longrightarrow> q < n \<Longrightarrow> wellformed_engine n (new_engine opt)"
  by (simp add: wellformed_engine_def new_engine_def)

lemma wellformed_QBall:
  assumes "wellformed s" and "\<forall>q. dlq opt = Some q \<longrightarrow> q < nengines s"
  shows "wellformed (fst (QBall opt s))"
proof -
  let ?s1 = "s\<lparr>engines := (engines s)(nengines s := new_engine opt), nengines := Suc (nengines s)\<rparr>"
  have "wellformed_engine n (eng n ?s1)" if "n < Suc (nengines s)" for n
  proof (cases "n = nengines s")
    case True
    then show ?thesis
      using wellformed_new_engine [OF assms(2)] by (simp add: eng_def)
  next
    case False
    then have "n < nengines s" using that by simp
    then have "wellformed_engine n (eng n s)"
      using assms(1) by (simp add: wellformed_def)
    then show ?thesis
      using False by (simp add: eng_def)
  qed
  then have "wellformed ?s1"
    by (simp add: wellformed_def)
  moreover have "static (fst (QBall opt s)) = static ?s1"
    by (simp add: QBall_def Let_def)
  ultimately show ?thesis
    by (rule wellformed_static [rotated])
qed

lemma wellformed_engine_add:
  "wellformed_engine n e \<Longrightarrow>
   wellformed_engine n (e\<lparr>listeners := (listeners e)(k := listeners e k @ [User i])\<rparr>)"
  by (cases k) (simp_all add: wellformed_engine_def internal_first_append)

lemma wellformed_engine_remove:
  "wellformed_engine n e \<Longrightarrow>
   wellformed_engine n (e\<lparr>listeners := (listeners e)(k := remove1 (User i) (listeners e k))\<rparr>)"
  by (cases k) (auto simp: wellformed_engine_def internal_first_remove1 dest: notin_set_remove1)

lemma wellformed_addEventListener:
  "wellformed s \<Longrightarrow> wellformed (addEventListener n k i s)"
  by (simp add: wellformed_def addEventListener_def wellformed_engine_add)

lemma wellformed_removeEventListener:
  "wellformed s \<Longrightarrow> wellformed (removeEventListener n k i s)"
  by (simp add: wellformed_def removeEventListener_def wellformed_engine_remove)

lemma reachable_wellformed: "reachable s \<Longrightarrow> wellformed s"
proof (induction rule: reachable.induct)
  case (r_boot r)
  show ?case by (rule wellformed_boot)
next
  case (r_QBall s opt)
  then show ?case by (simp add: wellformed_QBall)
next
  case (r_addEventListener s n k i)
  then show ?case by (simp add: wellformed_addEventListener)
next
  case (r_removeEventListener s n k i)
  then show ?case by (simp add: wellformed_removeEventListener)
next
  case (r_step s s')
  then show ?case by (auto intro: wellformed_static [OF static_step])
qed (auto intro: wellformed_static [rotated])

lemma publications_deliver:
  assumes "\<And>s. publications m k (trace (fst (internal s))) = publications m k (trace s)"
  shows "publications m k (trace (fst (deliver internal n p ls s))) = publications m k (trace s)"
  by (rule deliver_preserves
      [where P = "\<lambda>s'. publications m k (trace s') = publications m k (trace s)"])
    (simp_all add: assms)

lemma publications_emit_finished:
  "publications m k (trace (fst (emit_finished n s))) =
     publications m k (trace s) @ (if m = n \<and> k = Finished then [Emitted n FinishedP] else [])"
proof -
  have "publications m k (trace (fst (deliver (on_finished n) n FinishedP ls s'))) =
        publications m k (trace s')" for ls and s' :: "('a, 'b, 'c) sys"
    by (rule publications_deliver) (simp add: on_finished_def)
  then show ?thesis
    by (simp add: emit_finished_def publish_def)
qed

lemma publications_on_processed:
  "publications m k (trace (fst (on_processed n s))) =
     publications m k (trace s) @
       (if m = n \<and> k = Finished \<and> \<not> hasMessages (eng n s) \<and> \<not> anyAwaitingRetry (eng n s)
        then [Emitted n FinishedP] else [])"
  using publications_emit_finished [of m k n s]
  by (auto simp: on_processed_def split_beta split: option.splits)

lemma publications_users:
  "Internal \<notin> set ls \<Longrightarrow>
   publications m k (trace (fst (deliver internal n p ls s))) = publications m k (trace s)"
proof (induction ls arbitrary: s)
  case Nil
  then show ?case by simp
next
  case (Cons l ls)
  then obtain i where l: "l = User i" by (cases l) simp_all
  show ?case
    using Cons.IH [of "observe (Called n (User i) p) s"] Cons.prems l
    by (cases "raises s i") simp_all
qed

lemma extends_deliver:
  assumes "\<And>s. \<exists>ext. trace (fst (internal s)) = trace s @ ext"
  shows "\<exists>ext. trace (fst (deliver internal n p ls s)) = trace s @ ext"
proof (rule deliver_preserves [where P = "\<lambda>s'. \<exists>ext. trace s' = trace s @ ext"])
  show "\<exists>ext. trace s = trace s @ ext" by simp
  show "\<And>s' l. \<exists>ext. trace s' = trace s @ ext \<Longrightarrow>
      \<exists>ext. trace (observe (Called n l p) s') = trace s @ ext"
    by auto
  show "\<And>s'. \<exists>ext. trace s' = trace s @ ext \<Longrightarrow> \<exists>ext. trace (fst (internal s')) = trace s @ ext"
    using assms by (metis append.assoc)
qed

lemma extends_on_processed: "\<exists>ext. trace (fst (on_processed n s)) = trace s @ ext"
  using quiet_on_processed [of s n] by (simp add: quiet_def)

lemma emit_processed_internal_first:
  assumes "listeners (eng n s) Processed = Internal # rest" and "Internal \<notin> set rest"
  shows "take 2 (drop (length (trace s)) (trace (fst (emit n (ProcessedP d) s)))) =
           [Emitted n (ProcessedP d), Called n Internal (ProcessedP d)]"
    and "publications n Finished (trace (fst (emit n (ProcessedP d) s))) =
           publications n Finished (trace s) @
             (if \<not> hasMessages (eng n s) \<and> \<not> anyAwaitingRetry (eng n s)
              then [Emitted n FinishedP] else [])"
proof -
  let ?s2 = "observe (Called n Internal (ProcessedP d)) (observe (Emitted n (ProcessedP d)) s)"
  let ?s3 = "fst (on_processed n ?s2)"
  have e: "emit n (ProcessedP d) s = deliver (on_processed n) n (ProcessedP d) rest ?s3"
    using assms(1) snd_on_processed [of n ?s2]
    by (simp add: emit_def publish_def split_beta)
  obtain ext1 where x1: "trace ?s3 = trace ?s2 @ ext1"
    using extends_on_processed [of n ?s2] by blast
  obtain ext2 where x2:
    "trace (fst (deliver (on_processed n) n (ProcessedP d) rest ?s3)) = trace ?s3 @ ext2"
    using extends_deliver [of "on_processed n" n "ProcessedP d" rest ?s3] extends_on_processed
    by blast
  show "take 2 (drop (length (trace s)) (trace (fst (emit n (ProcessedP d) s)))) =
           [Emitted n (ProcessedP d), Called n Internal (ProcessedP d)]"
    by (simp add: e x2 x1)
  have "publications n Finished (trace (fst (deliver (on_processed n) n (ProcessedP d) rest ?s3))) =
        publications n Finished (trace ?s3)"
    by (rule publications_users [OF assms(2)])
  then show "publications n Finished (trace (fst (emit n (ProcessedP d) s))) =
           publications n Finished (trace s) @
             (if \<not> hasMessages (eng n s) \<and> \<not> anyAwaitingRetry (eng n s)
              then [Emitted n FinishedP] else [])"
    by (simp add: e publications_on_processed)
qed

lemma acts_on_refl [simp]: "acts_on n s s"
  by (simp add: acts_on_def)

lemma acts_on_trans: "acts_on n s s' \<Longrightarrow> acts_on n s' s'' \<Longrightarrow> acts_on n s s''"
  by (auto simp: acts_on_def)

lemma acts_on_prims [simp]:
  "acts_on n s (observe ev s)"
  "acts_on n s (setTimeout dl t s)"
  "acts_on n s (enqueue t s)"
  "acts_on n s (debugLog n line s)"
  "acts_on n s (set_isWorking n w b s)"
  "acts_on n s (set_isAwaitingRetry n w b s)"
  by (simp_all add: acts_on_def debugLog_def set_isWorking_def set_isAwaitingRetry_def)

lemma acts_on_upd:
  "(\<And>e. length (workerObjects (f e)) = length (workerObjects e)) \<Longrightarrow> acts_on n s (upd n f s)"
  by (simp add: acts_on_def)

lemma acts_on_then: "acts_on n s s' \<Longrightarrow> (\<And>s. acts_on n s (f s)) \<Longrightarrow> acts_on n s (f s')"
  by (rule acts_on_trans)

lemma acts_on_deliver:
  assumes "\<And>s. acts_on n s (fst (internal s))"
  shows "acts_on n s (fst (deliver internal n p ls s))"
proof (rule deliver_preserves [where P = "acts_on n s"])
  show "acts_on n s s" by simp
  show "\<And>s' l. acts_on n s s' \<Longrightarrow> acts_on n s (observe (Called n l p) s')"
    by (erule acts_on_then) simp
  show "\<And>s'. acts_on n s s' \<Longrightarrow> acts_on n s (fst (internal s'))"
    by (erule acts_on_then) (rule assms)
qed

lemma acts_on_publish:
  assumes "\<And>s. acts_on n s (fst (internal s))"
  shows "acts_on n s (fst (publish internal n p s))"
  unfolding publish_def
  by (rule acts_on_trans [OF acts_on_prims(1) acts_on_deliver [OF assms]])

lemma acts_on_emit_finished [simp]: "acts_on n s (fst (emit_finished n s))"
  unfolding emit_finished_def
  by (rule acts_on_publish) (simp add: on_finished_def acts_on_upd)

lemma acts_on_on_processed: "acts_on n s (fst (on_processed n s))"
proof -
  have "acts_on n s (observe (Unhandled n x) (fst (emit_finished n s)))" for x
    by (rule acts_on_then [OF acts_on_emit_finished]) simp
  then show ?thesis
    by (simp add: on_processed_def split_beta split: option.splits)
qed

lemma acts_on_on_error: "acts_on n s (fst (on_error n s))"
proof -
  have "acts_on n s (fst (emit_finished n (upd n (\<lambda>e. e\<lparr>forceStopped := True\<rparr>) s)))"
    by (rule acts_on_then [OF acts_on_upd]) simp_all
  then show ?thesis
    by (simp add: on_error_def)
qed

lemma acts_on_emit [simp]: "acts_on n s (fst (emit n p s))"
  unfolding emit_def
  by (rule acts_on_publish, cases "kind_of p")
    (simp_all add: acts_on_on_error acts_on_on_processed on_finished_def on_nothing_def acts_on_upd)

lemma acts_on_process [simp]: "acts_on n s (process n w p s)"
proof -
  let ?s1 = "set_isWorking n w True s"
  let ?s2 = "debugLog n (ProcessingMessage (Suc (attempt p)) (message p)) ?s1"
  let ?s3 = "observe (Invoked n (message p) (Suc (attempt p)))
               (upd n (\<lambda>e. e\<lparr>invocations := Suc (invocations e)\<rparr>) ?s2)"
  have "acts_on n s ?s2"
    by (rule acts_on_then [of n s ?s1]) simp_all
  then have "acts_on n s (upd n (\<lambda>e. e\<lparr>invocations := Suc (invocations e)\<rparr>) ?s2)"
    by (rule acts_on_then) (simp add: acts_on_upd)
  then have 3: "acts_on n s ?s3"
    by (rule acts_on_then) simp
  have "acts_on n s (enqueue t ?s3)" "acts_on n s (setTimeout dl t ?s3)" for t dl
    by (rule acts_on_then [OF 3], simp)+
  then show ?thesis
    by (simp add: process_def Let_def split_beta)
qed

lemma acts_on_worker_loop [simp]: "acts_on n s (worker_loop n w s)"
proof -
  have "acts_on n s (process n w p (upd n (\<lambda>e. e\<lparr>messagePackets := rest\<rparr>) s))" for p rest
    by (rule acts_on_then [OF acts_on_upd]) simp_all
  moreover have "acts_on n s (observe ev (fst (emit_finished n s)))" for ev
    by (rule acts_on_then [OF acts_on_emit_finished]) simp
  moreover have "acts_on n s (setTimeout dl t (fst (emit_finished n s)))" for dl t
    by (rule acts_on_then [OF acts_on_emit_finished]) simp
  ultimately show ?thesis
    by (simp add: worker_loop_def split_beta split: list.splits option.splits)
qed

lemma acts_on_worker_start [simp]: "acts_on n s (worker_start n w s)"
  unfolding worker_start_def
  by (rule acts_on_then [of n s "debugLog n WorkerStarted s"]) simp_all

lemma acts_on_start_workers [simp]: "acts_on n s (start_workers n is s)"
proof (induction "is" arbitrary: s)
  case Nil
  show ?case by simp
next
  case (Cons i "is")
  have "acts_on n s (start_workers n is (worker_start n i s))"
    by (rule acts_on_trans [OF acts_on_worker_start Cons.IH])
  then show ?case
    using Cons.IH [of s] by simp
qed

lemma acts_on_startProcessing [simp]: "acts_on n s (fst (startProcessing n s))"
proof -
  let ?s1 = "fst (emit n StartedP s)"
  have "acts_on n s (fst (emit_finished n (debugLog n NoMessages ?s1)))"
    by (rule acts_on_then [OF acts_on_then [OF acts_on_emit]]) simp_all
  moreover have "acts_on n s (start_workers n is
      (upd n (\<lambda>e. e\<lparr>forceStopped := False, isProcessing := True\<rparr>) ?s1))" for "is"
    by (rule acts_on_then [OF acts_on_then [OF acts_on_emit]]) (simp_all add: acts_on_upd)
  ultimately show ?thesis
    by (simp add: startProcessing_def split_beta split: option.splits)
qed

lemma acts_on_add [simp]: "acts_on n s (fst (add n m s))"
proof -
  have "acts_on n s (fst (startProcessing n (upd n (\<lambda>e. e\<lparr>messagePackets :=
                 messagePackets e @ [\<lparr>message = m, attempt = 0\<rparr>]\<rparr>) s)))"
    by (rule acts_on_then [OF acts_on_upd]) simp_all
  then show ?thesis
    by (simp add: add_def Let_def acts_on_upd)
qed

lemma quiet_trace: "quiet s s' \<Longrightarrow> \<exists>ext. trace s' = trace s @ ext"
  by (simp add: quiet_def)

lemma quiet_queue: "quiet s s' \<Longrightarrow> messagePackets (eng m s') = messagePackets (eng m s)"
  by (simp add: quiet_def)

lemma quiet_isProcessing: "quiet s s' \<Longrightarrow> isProcessing (eng m s') \<Longrightarrow> isProcessing (eng m s)"
  by (simp add: quiet_def)

lemma emit_error_stops:
  fixes s :: "('m, 'd, 'e) sys"
  assumes "listeners (eng n s) Error = Internal # re"
    and "listeners (eng n s) Finished = Internal # rf"
    and "stopOnError (opts (eng n s))"
  shows "\<exists>ext. trace (fst (emit n (ErrorP x) s)) =
           trace s @ [Emitted n (ErrorP x), Called n Internal (ErrorP x),
                      Emitted n FinishedP, Called n Internal FinishedP] @ ext"
    and "\<not> isProcessing (eng n (fst (emit n (ErrorP x) s)))"
    and "messagePackets (eng n (fst (emit n (ErrorP x) s))) = messagePackets (eng n s)"
proof -
  let ?s2 = "observe (Called n Internal (ErrorP x)) (observe (Emitted n (ErrorP x)) s)"
  let ?s3 = "observe (Called n Internal FinishedP)
               (observe (Emitted n FinishedP) (upd n (\<lambda>e. e\<lparr>forceStopped := True\<rparr>) ?s2))"
  let ?s4 = "upd n (\<lambda>e. e\<lparr>isProcessing := False\<rparr>) ?s3"
  let ?s5 = "fst (deliver (on_finished n) n FinishedP rf ?s4) :: ('m, 'd, 'e) sys"
  let ?s6 = "fst (deliver (on_error n) n (ErrorP x) re ?s5) :: ('m, 'd, 'e) sys"
  have on_error: "on_error n ?s2 = deliver (on_finished n) n FinishedP rf ?s4"
    using assms(2,3)
    by (simp add: on_error_def emit_finished_def publish_def on_finished_def)
  have q5: "quiet ?s4 ?s5"
    by (rule quiet_deliver) (simp add: on_finished_def quiet_flags)
  have q6: "quiet ?s5 ?s6"
    by (rule quiet_deliver) (rule quiet_on_error)
  have "fst (emit n (ErrorP x) s) = ?s5 \<or> fst (emit n (ErrorP x) s) = ?s6"
    using assms(1) on_error
    by (simp add: emit_def publish_def split_beta split: option.splits)
  then have q: "quiet ?s4 (fst (emit n (ErrorP x) s))"
    using q5 quiet_trans [OF q5 q6] by auto
  obtain ext where "trace (fst (emit n (ErrorP x) s)) = trace ?s4 @ ext"
    using quiet_trace [OF q] by blast
  then show "\<exists>ext. trace (fst (emit n (ErrorP x) s)) =
           trace s @ [Emitted n (ErrorP x), Called n Internal (ErrorP x),
                      Emitted n FinishedP, Called n Internal FinishedP] @ ext"
    by simp
  have "isProcessing (eng n (fst (emit n (ErrorP x) s))) \<longrightarrow> isProcessing (eng n ?s4)"
    and "messagePackets (eng n (fst (emit n (ErrorP x) s))) = messagePackets (eng n ?s4)"
    using quiet_isProcessing [OF q, of n] quiet_queue [OF q, of n] by blast+
  then show "\<not> isProcessing (eng n (fst (emit n (ErrorP x) s)))"
    and "messagePackets (eng n (fst (emit n (ErrorP x) s))) = messagePackets (eng n s)"
    by simp_all
qed

lemma finish_process_frame [simp]:
  "isProcessing (eng m (finish_process n w s)) = isProcessing (eng m s)"
  "messagePackets (eng m (finish_process n w s)) = messagePackets (eng m s)"
  "trace (finish_process n w s) = trace s"
  by (simp_all add: finish_process_def set_isWorking_def)

lemma debugLog_frame [simp]:
  "eng m (debugLog n line s) = eng m s"
  "\<exists>ext. trace (debugLog n line s) = trace s @ ext"
  by (simp_all add: debugLog_def)

lemma handle_failure_stops:
  fixes s :: "('m, 'd, 'e) sys"
  assumes "listeners (eng n s) Error = Internal # re"
    and "listeners (eng n s) Finished = Internal # rf"
    and "stopOnError (opts (eng n s))"
    and "\<not> attempt p < redriveCount (opts (eng n s))"
    and "dlq (opts (eng n s)) \<noteq> Some n"
  shows "\<exists>ext. trace (handle_failure n w p x s) =
           trace (debugLog n (ErrorProcessing (attempt p) (message p) x) s) @
             [Emitted n (ErrorP x), Called n Internal (ErrorP x),
              Emitted n FinishedP, Called n Internal FinishedP] @ ext"
    and "\<not> isProcessing (eng n (handle_failure n w p x s))"
    and "messagePackets (eng n (handle_failure n w p x s)) = messagePackets (eng n s)"
proof -
  let ?s1 = "debugLog n (ErrorProcessing (attempt p) (message p) x) s"
  let ?s2 = "fst (emit n (ErrorP x) ?s1)"
  let ?four = "[Emitted n (ErrorP x), Called n Internal (ErrorP x),
              Emitted n FinishedP, Called n Internal FinishedP]"
  define Q where "Q = (\<lambda>s' :: ('m, 'd, 'e) sys.
      (\<exists>ext. trace s' = trace ?s1 @ ?four @ ext) \<and> \<not> isProcessing (eng n s') \<and>
      messagePackets (eng n s') = messagePackets (eng n s))"
  have 2: "Q ?s2"
    using emit_error_stops [of n ?s1 re rf x] assms(1-3) by (simp add: Q_def)
  then have u: "Q (observe ev ?s2)" for ev
    by (auto simp: Q_def)
  from 2 have f: "Q (finish_process n w ?s2)"
    by (simp add: Q_def)
  have a: "Q (fst (add q m ?s2))" if "q \<noteq> n" for q m
  proof -
    have "acts_on q ?s2 (fst (add q m ?s2))" by simp
    then show ?thesis
      using 2 that by (auto simp: acts_on_def Q_def)
  qed
  have au: "Q (observe ev (fst (add q m ?s2)))" if "q \<noteq> n" for q m ev
    using a [OF that, of m] by (auto simp: Q_def)
  have af: "Q (finish_process n w (fst (add q m ?s2)))" if "q \<noteq> n" for q m
    using a [OF that, of m] by (simp add: Q_def)
  have "handle_failure n w p x s = observe (Unhandled n (the (snd (emit n (ErrorP x) ?s1)))) ?s2 \<or>
        handle_failure n w p x s = finish_process n w ?s2 \<or>
        (\<exists>q. q \<noteq> n \<and>
          (handle_failure n w p x s =
             observe (Unhandled n (the (snd (add q (message p) ?s2)))) (fst (add q (message p) ?s2)) \<or>
           handle_failure n w p x s = finish_process n w (fst (add q (message p) ?s2))))"
    using assms(4,5)
    by (auto simp: handle_failure_def Let_def split_beta split: option.splits)
  then have "Q (handle_failure n w p x s)"
    using u f au af by (elim disjE exE conjE) simp_all
  then show "\<exists>ext. trace (handle_failure n w p x s) = trace ?s1 @ ?four @ ext"
    and "\<not> isProcessing (eng n (handle_failure n w p x s))"
    and "messagePackets (eng n (handle_failure n w p x s)) = messagePackets (eng n s)"
    by (simp_all add: Q_def)
qed

lemma acts_on_trace: "acts_on n s s' \<Longrightarrow> \<exists>ext. trace s' = trace s @ ext"
  by (simp add: acts_on_def)

lemma acts_on_length:
  "acts_on n s s' \<Longrightarrow> length (workerObjects (eng n s')) = length (workerObjects (eng n s))"
  by (simp add: acts_on_def)

lemma trace_emit: "\<exists>ext. trace (fst (emit n p s)) = trace s @ Emitted n p # ext"
proof -
  have "acts_on n (observe (Emitted n p) s)
          (fst (deliver (internal_of n (kind_of p)) n p (listeners (eng n s) (kind_of p))
                 (observe (Emitted n p) s)))"
    by (rule acts_on_deliver, cases "kind_of p")
      (simp_all add: acts_on_on_error acts_on_on_processed on_finished_def on_nothing_def acts_on_upd)
  then show ?thesis
    using acts_on_trace by (fastforce simp: emit_def publish_def)
qed

lemma trace_startProcessing:
  assumes "\<not> (isProcessing (eng n s) \<and> \<not> anyAwaitingRetry (eng n s))"
  shows "\<exists>ext. trace (fst (startProcessing n s)) = trace s @ Emitted n StartedP # ext"
proof -
  let ?s1 = "fst (emit n StartedP s)"
  obtain ext1 where 1: "trace ?s1 = trace s @ Emitted n StartedP # ext1"
    using trace_emit by blast
  have 2: "\<exists>ext. trace (fst (emit_finished n (debugLog n NoMessages ?s1))) =
      trace s @ Emitted n StartedP # ext"
  proof -
    have "acts_on n ?s1 (fst (emit_finished n (debugLog n NoMessages ?s1)))"
      by (rule acts_on_then [of n ?s1 "debugLog n NoMessages ?s1"]) simp_all
    from acts_on_trace [OF this] show ?thesis
      using 1 by auto
  qed
  have 3: "\<exists>ext. trace (start_workers n is
      (upd n (\<lambda>e. e\<lparr>forceStopped := False, isProcessing := True\<rparr>) ?s1)) =
      trace s @ Emitted n StartedP # ext" for "is"
  proof -
    have "acts_on n ?s1 (start_workers n is
        (upd n (\<lambda>e. e\<lparr>forceStopped := False, isProcessing := True\<rparr>) ?s1))"
      by (rule acts_on_then [OF acts_on_upd]) simp_all
    from acts_on_trace [OF this] show ?thesis
      using 1 by auto
  qed
  have guard: "(isProcessing (eng n s) \<and> \<not> anyAwaitingRetry (eng n s)) = False"
    using assms by simp
  show ?thesis
    using 1 2 3
    by (simp add: startProcessing_def guard split_beta split: option.splits)
qed

lemma anyAwaitingRetry_nth:
  "w < length (workerObjects e) \<Longrightarrow> isAwaitingRetry (workerObjects e ! w) \<Longrightarrow> anyAwaitingRetry e"
  by (auto simp: anyAwaitingRetry_def list_ex_iff)

lemma flag_after_set [simp]:
  "w < length (workerObjects (eng n s)) \<Longrightarrow>
   isAwaitingRetry (workerObjects (eng n (set_isAwaitingRetry n w b s)) ! w) = b"
  "w < length (workerObjects (eng n s)) \<Longrightarrow>
   isAwaitingRetry (workerObjects (eng n (set_isWorking n w b s)) ! w) =
   isAwaitingRetry (workerObjects (eng n s) ! w)"
  by (simp_all add: set_isAwaitingRetry_def set_isWorking_def)

lemma retry_scheduled:
  fixes s :: "('m, 'd, 'e) sys" and x :: 'e
  assumes "attempt p < redriveCount (opts (eng n s))"
    and "w < length (workerObjects (eng n s))"
  defines "delay \<equiv> redriveDelay (opts (eng n s)) (attempt p) (message p)"
  defines "s1 \<equiv> debugLog n (ErrorProcessing (attempt p) (message p) x) s"
  defines "s' \<equiv> resume n w p (Inl x) s"
  shows "take 1 (drop (length (trace s1)) (trace s')) =
           [Emitted n (RetryP (message p) (attempt p) delay)]"
    and "snd (emit n (RetryP (message p) (attempt p) delay) s1) \<noteq> None \<Longrightarrow>
           workerObjects (eng n s') = workerObjects (eng n s) \<and> timers s' = timers s"
    and "snd (emit n (RetryP (message p) (attempt p) delay) s1) = None \<Longrightarrow>
           isAwaitingRetry (workerObjects (eng n s') ! w) \<and>
           timers s' = timers s @ [(now s + delay, RetryPush n w p)] \<and>
           messagePackets (eng n s') = messagePackets (eng n s)"
proof -
  let ?ev = "RetryP (message p) (attempt p) delay :: ('m, 'd, 'e) payload"
  let ?s2 = "fst (emit n ?ev s1)"
  have q: "quiet s ?s2"
    unfolding s1_def by (rule quiet_trans [OF quiet_debugLog quiet_emit])
  obtain ext where t: "trace ?s2 = trace s1 @ Emitted n ?ev # ext"
    using trace_emit by blast
  have raise: "s' = observe (Unhandled n y) ?s2"
    if "snd (emit n ?ev s1) = Some y" for y
    using assms(1) that
    by (simp add: s'_def s1_def delay_def resume_def handle_failure_def Let_def split_beta)
  have normal: "s' = finish_process n w
      (setTimeout delay (RetryPush n w p) (set_isAwaitingRetry n w True ?s2))"
    if "snd (emit n ?ev s1) = None"
    using assms(1) that
    by (simp add: s'_def s1_def delay_def resume_def handle_failure_def Let_def split_beta)
  show "take 1 (drop (length (trace s1)) (trace s')) = [Emitted n ?ev]"
    using raise normal t
    by (cases "snd (emit n ?ev s1)") (simp_all add: finish_process_def set_isWorking_def
        set_isAwaitingRetry_def)
  show "workerObjects (eng n s') = workerObjects (eng n s) \<and> timers s' = timers s"
    if "snd (emit n ?ev s1) \<noteq> None"
    using that raise q by (auto simp: quiet_def)
  have len: "w < length (workerObjects (eng n ?s2))"
    using q assms(2) by (simp add: quiet_def)
  show "isAwaitingRetry (workerObjects (eng n s') ! w) \<and>
        timers s' = timers s @ [(now s + delay, RetryPush n w p)] \<and>
        messagePackets (eng n s') = messagePackets (eng n s)"
    if "snd (emit n ?ev s1) = None"
    using normal [OF that] q len
    by (simp add: quiet_def finish_process_def set_isWorking_def set_isAwaitingRetry_def)
qed

lemma retry_pushed:
  "messagePackets (eng n (exec (RetryPush n w p) s)) = messagePackets (eng n s) @ [p] \<and>
   timers (exec (RetryPush n w p) s) = timers s @ [(now s, RetryRestart n w)] \<and>
   workerObjects (eng n (exec (RetryPush n w p) s)) = workerObjects (eng n s) \<and>
   trace (exec (RetryPush n w p) s) = trace s"
  by (simp add: retry_push_def)

lemma retry_restarted:
  fixes s :: "('m, 'd, 'e) sys"
  assumes "w < length (workerObjects (eng n s))"
    and "isAwaitingRetry (workerObjects (eng n s) ! w)"
  shows "take 1 (drop (length (trace s)) (trace (exec (RetryRestart n w) s))) = [Emitted n StartedP]"
    and "snd (startProcessing n s) = None \<Longrightarrow>
         exec (RetryRestart n w) s = set_isAwaitingRetry n w False (fst (startProcessing n s)) \<and>
         \<not> isAwaitingRetry (workerObjects (eng n (exec (RetryRestart n w) s)) ! w)"
proof -
  have "\<not> (isProcessing (eng n s) \<and> \<not> anyAwaitingRetry (eng n s))"
    using anyAwaitingRetry_nth [OF assms] by simp
  then obtain ext where t: "trace (fst (startProcessing n s)) = trace s @ Emitted n StartedP # ext"
    using trace_startProcessing by blast
  then show "take 1 (drop (length (trace s)) (trace (exec (RetryRestart n w) s))) = [Emitted n StartedP]"
    by (simp add: retry_restart_def split_beta set_isAwaitingRetry_def split: option.splits)
  have "w < length (workerObjects (eng n (fst (startProcessing n s))))"
    using acts_on_length [OF acts_on_startProcessing, of n s] assms(1) by simp
  then show "exec (RetryRestart n w) s = set_isAwaitingRetry n w False (fst (startProcessing n s)) \<and>
         \<not> isAwaitingRetry (workerObjects (eng n (exec (RetryRestart n w) s)) ! w)"
    if "snd (startProcessing n s) = None"
    using that by (simp add: retry_restart_def split_beta)
qed

lemma alike_refl [simp]: "alike s s"
  by (simp add: alike_def)

lemma flagless_fields:
  assumes "flagless e = flagless e'"
  shows "opts e = opts e'" "isProcessing e = isProcessing e'"
    "messagePackets e = messagePackets e'" "listeners e = listeners e'"
    "workerObjects e = workerObjects e'" "invocations e = invocations e'"
  using arg_cong [OF assms, of opts] arg_cong [OF assms, of isProcessing]
    arg_cong [OF assms, of messagePackets] arg_cong [OF assms, of listeners]
    arg_cong [OF assms, of workerObjects] arg_cong [OF assms, of invocations]
  by (simp_all add: flagless_def)

lemma alike_eng: "alike s t \<Longrightarrow> flagless (eng n s) = flagless (eng n t)"
  by (simp add: alike_def eng_def)

lemma alike_reads:
  assumes "alike s t"
  shows "opts (eng n t) = opts (eng n s)" "isProcessing (eng n t) = isProcessing (eng n s)"
    "messagePackets (eng n t) = messagePackets (eng n s)" "listeners (eng n t) = listeners (eng n s)"
    "workerObjects (eng n t) = workerObjects (eng n s)" "invocations (eng n t) = invocations (eng n s)"
    "hasMessages (eng n t) = hasMessages (eng n s)"
    "anyAwaitingRetry (eng n t) = anyAwaitingRetry (eng n s)"
  using flagless_fields [OF alike_eng [OF assms, of n]]
  by (simp_all add: hasMessages_def anyAwaitingRetry_def)

lemma alike_globals:
  assumes "alike s t"
  shows "raises t = raises s" "now t = now s" "trace t = trace s" "microtasks t = microtasks s"
    "timers t = timers s" "nengines t = nengines s"
  using assms by (simp_all add: alike_def)

lemma alike_prims [simp]:
  "alike s t \<Longrightarrow> alike (observe ev s) (observe ev t)"
  "alike s t \<Longrightarrow> alike (setTimeout dl tk s) (setTimeout dl tk t)"
  "alike s t \<Longrightarrow> alike (enqueue tk s) (enqueue tk t)"
  by (simp_all add: alike_def observe_def setTimeout_def enqueue_def)

lemma alike_upd:
  assumes "alike s t" and "\<And>e. flagless (f e) = flagless (f (flagless e))"
  shows "alike (upd n f s) (upd n f t)"
proof -
  have "flagless (f (engines s n)) = flagless (f (engines t n))"
    using assms(2) [of "engines s n"] assms(2) [of "engines t n"] assms(1)
    by (simp add: alike_def)
  then show ?thesis
    using assms(1) by (simp add: alike_def upd_def)
qed

lemma alike_upd_simps [simp]:
  "alike s t \<Longrightarrow> alike (upd n (\<lambda>e. e\<lparr>isProcessing := b\<rparr>) s) (upd n (\<lambda>e. e\<lparr>isProcessing := b\<rparr>) t)"
  "alike s t \<Longrightarrow> alike (upd n (\<lambda>e. e\<lparr>forceStopped := b\<rparr>) s) (upd n (\<lambda>e. e\<lparr>forceStopped := b\<rparr>) t)"
  "alike s t \<Longrightarrow> alike (upd n (\<lambda>e. e\<lparr>messagePackets := ps\<rparr>) s) (upd n (\<lambda>e. e\<lparr>messagePackets := ps\<rparr>) t)"
  "alike s t \<Longrightarrow> alike (upd n (\<lambda>e. e\<lparr>messagePackets := messagePackets e @ ps\<rparr>) s)
                      (upd n (\<lambda>e. e\<lparr>messagePackets := messagePackets e @ ps\<rparr>) t)"
  "alike s t \<Longrightarrow> alike (upd n (\<lambda>e. e\<lparr>invocations := Suc (invocations e)\<rparr>) s)
                      (upd n (\<lambda>e. e\<lparr>invocations := Suc (invocations e)\<rparr>) t)"
  "alike s t \<Longrightarrow> alike (upd n (\<lambda>e. e\<lparr>forceStopped := b, isProcessing := c\<rparr>) s)
                      (upd n (\<lambda>e. e\<lparr>forceStopped := b, isProcessing := c\<rparr>) t)"
  "alike s t \<Longrightarrow> alike (upd n (\<lambda>e. e\<lparr>messagePackets := ps, isProcessing := c\<rparr>) s)
                      (upd n (\<lambda>e. e\<lparr>messagePackets := ps, isProcessing := c\<rparr>) t)"
  "alike s t \<Longrightarrow> alike (upd n (\<lambda>e. e\<lparr>listeners := g (listeners e)\<rparr>) s)
                      (upd n (\<lambda>e. e\<lparr>listeners := g (listeners e)\<rparr>) t)"
  by (erule alike_upd, simp add: flagless_def)+

lemma alike_flags [simp]:
  "alike s t \<Longrightarrow> alike (set_isWorking n w b s) (set_isWorking n w b t)"
  "alike s t \<Longrightarrow> alike (set_isAwaitingRetry n w b s) (set_isAwaitingRetry n w b t)"
  unfolding set_isWorking_def set_isAwaitingRetry_def
  by (erule alike_upd, simp add: flagless_def)+

lemma alike_debugLog [simp]: "alike s t \<Longrightarrow> alike (debugLog n line s) (debugLog n line t)"
  using alike_reads(1) [of s t n] by (simp add: debugLog_def)

lemma alike_deliver:
  assumes "\<And>s t. alike s t \<Longrightarrow>
             alike (fst (internal s)) (fst (internal t)) \<and> snd (internal s) = snd (internal t)"
    and "alike s t"
  shows "alike (fst (deliver internal n p ls s)) (fst (deliver internal n p ls t)) \<and>
         snd (deliver internal n p ls s) = snd (deliver internal n p ls t)"
  using assms(2)
proof (induction ls arbitrary: s t)
  case Nil
  then show ?case by simp
next
  case (Cons l ls)
  show ?case
  proof (cases l)
    case Internal
    let ?s1 = "observe (Called n Internal p) s" and ?t1 = "observe (Called n Internal p) t"
    have i: "alike (fst (internal ?s1)) (fst (internal ?t1))" "snd (internal ?s1) = snd (internal ?t1)"
      using assms(1) [of ?s1 ?t1] Cons.prems by simp_all
    show ?thesis
      using Internal i Cons.IH [OF i(1)]
      by (cases "snd (internal ?t1)") (simp_all add: split_beta)
  next
    case (User i)
    let ?s1 = "observe (Called n (User i) p) s" and ?t1 = "observe (Called n (User i) p) t"
    have "alike ?s1 ?t1" using Cons.prems by simp
    then show ?thesis
      using User Cons.IH [of ?s1 ?t1] alike_globals(1) [OF Cons.prems]
      by (cases "raises s i") simp_all
  qed
qed

lemma alike_publish:
  assumes "\<And>s t. alike s t \<Longrightarrow>
             alike (fst (internal s)) (fst (internal t)) \<and> snd (internal s) = snd (internal t)"
    and "alike s t"
  shows "alike (fst (publish internal n p s)) (fst (publish internal n p t)) \<and>
         snd (publish internal n p s) = snd (publish internal n p t)"
proof -
  have "alike (observe (Emitted n p) s) (observe (Emitted n p) t)"
    using assms(2) by simp
  from alike_deliver [of internal, OF assms(1) this] show ?thesis
    by (simp add: publish_def alike_reads(4) [OF assms(2)])
qed

lemma alike_emit_finished:
  assumes "alike s t"
  shows "alike (fst (emit_finished n s)) (fst (emit_finished n t)) \<and>
         snd (emit_finished n s) = snd (emit_finished n t)"
  unfolding emit_finished_def
  by (rule alike_publish [OF _ assms]) (simp add: on_finished_def)

lemma alike_on_processed:
  assumes "alike s t"
  shows "alike (fst (on_processed n s)) (fst (on_processed n t)) \<and>
         snd (on_processed n s) = snd (on_processed n t)"
  using alike_emit_finished [OF assms, of n] alike_reads(7,8) [OF assms, of n] assms
  by (simp add: on_processed_def split_beta split: option.splits)

lemma alike_on_error:
  assumes "alike s t"
  shows "alike (fst (on_error n s)) (fst (on_error n t)) \<and>
         snd (on_error n s) = snd (on_error n t)"
  using alike_emit_finished [of "upd n (\<lambda>e. e\<lparr>forceStopped := True\<rparr>) s"
      "upd n (\<lambda>e. e\<lparr>forceStopped := True\<rparr>) t" n] assms alike_reads(1) [OF assms, of n]
  by (simp add: on_error_def)

lemma alike_emit:
  assumes "alike s t"
  shows "alike (fst (emit n p s)) (fst (emit n p t)) \<and> snd (emit n p s) = snd (emit n p t)"
  unfolding emit_def
  by (rule alike_publish [OF _ assms], cases "kind_of p")
    (simp_all add: alike_on_error alike_on_processed on_finished_def on_nothing_def)

lemma alike_process:
  assumes "alike s t"
  shows "alike (process n w p s) (process n w p t)"
proof -
  let ?s2 = "debugLog n (ProcessingMessage (Suc (attempt p)) (message p)) (set_isWorking n w True s)"
  let ?t2 = "debugLog n (ProcessingMessage (Suc (attempt p)) (message p)) (set_isWorking n w True t)"
  have 2: "alike ?s2 ?t2" using assms by simp
  show ?thesis
    using 2 alike_reads(1,6) [OF 2, of n]
    by (simp add: process_def Let_def split_beta)
qed

lemma alike_worker_loop:
  assumes "alike s t"
  shows "alike (worker_loop n w s) (worker_loop n w t)"
proof -
  note r = alike_reads [OF assms, of n]
  note f = alike_emit_finished [OF assms, of n]
  have "alike (process n w p (upd n (\<lambda>e. e\<lparr>messagePackets := rest\<rparr>) s))
              (process n w p (upd n (\<lambda>e. e\<lparr>messagePackets := rest\<rparr>) t))" for p rest
    by (rule alike_process) (simp add: assms)
  then show ?thesis
    using r f assms
    by (auto simp: worker_loop_def split_beta split: list.splits option.splits)
qed

lemma alike_worker_start:
  "alike s t \<Longrightarrow> alike (worker_start n w s) (worker_start n w t)"
  by (simp add: worker_start_def alike_worker_loop)

lemma alike_start_workers:
  "alike s t \<Longrightarrow> alike (start_workers n is s) (start_workers n is t)"
proof (induction "is" arbitrary: s t)
  case Nil
  then show ?case by simp
next
  case (Cons i "is")
  show ?case
    using alike_reads(3,5) [OF Cons.prems, of n] Cons.IH [OF Cons.prems]
      Cons.IH [OF alike_worker_start [OF Cons.prems, of n i]] Cons.prems
    by simp
qed

lemma alike_startProcessing:
  assumes "alike s t"
  shows "alike (fst (startProcessing n s)) (fst (startProcessing n t)) \<and>
         snd (startProcessing n s) = snd (startProcessing n t)"
proof -
  note r = alike_reads [OF assms, of n]
  let ?s1 = "fst (emit n StartedP s)" and ?t1 = "fst (emit n StartedP t)"
  have 1: "alike ?s1 ?t1" and r1: "snd (emit n StartedP t) = snd (emit n StartedP s)"
    using alike_emit [OF assms, of n StartedP] by simp_all
  note q = alike_reads [OF 1, of n]
  have fin: "alike (fst (emit_finished n (debugLog n NoMessages ?s1)))
                   (fst (emit_finished n (debugLog n NoMessages ?t1)))"
    "snd (emit_finished n (debugLog n NoMessages ?t1)) = snd (emit_finished n (debugLog n NoMessages ?s1))"
    using alike_emit_finished [of "debugLog n NoMessages ?s1" "debugLog n NoMessages ?t1" n] 1
    by simp_all
  have go: "alike (start_workers n is (upd n (\<lambda>e. e\<lparr>forceStopped := False, isProcessing := True\<rparr>) ?s1))
                  (start_workers n is (upd n (\<lambda>e. e\<lparr>forceStopped := False, isProcessing := True\<rparr>) ?t1))"
    for "is"
    by (rule alike_start_workers) (simp add: 1)
  show ?thesis
    using r(2,8) q(1,7) r1 1 fin go assms
    by (simp add: startProcessing_def split_beta split: option.splits)
qed

lemma alike_add:
  assumes "alike s t"
  shows "alike (fst (add n m s)) (fst (add n m t)) \<and> snd (add n m s) = snd (add n m t)"
proof -
  let ?f = "\<lambda>e :: ('a, 'b, 'c) engine.
              e\<lparr>messagePackets := messagePackets e @ [\<lparr>message = m, attempt = 0\<rparr>]\<rparr>"
  have 1: "alike (upd n ?f s) (upd n ?f t)"
    using assms by simp
  show ?thesis
    using 1 alike_startProcessing [OF 1, of n] alike_reads(1) [OF assms, of n]
    by (simp add: add_def Let_def)
qed

lemma alike_stop:
  assumes "alike s t"
  shows "alike (fst (stop n s)) (fst (stop n t)) \<and> snd (stop n s) = snd (stop n t)"
proof -
  let ?f = "\<lambda>e :: ('a, 'b, 'c) engine. e\<lparr>isProcessing := False\<rparr>"
  have 1: "alike (upd n ?f s) (upd n ?f t)"
    using assms by simp
  show ?thesis
    using 1 alike_emit_finished [OF 1, of n] alike_reads(3) [OF assms, of n]
    by (simp add: stop_def Let_def hasMessages_def)
qed

lemma alike_clear:
  assumes "alike s t"
  shows "alike (fst (clear n s)) (fst (clear n t)) \<and> snd (clear n s) = snd (clear n t)"
  unfolding clear_def
  by (rule alike_emit_finished) (simp add: assms)

lemma alike_nextStop: "alike s t \<Longrightarrow> alike (nextStop n s) (nextStop n t)"
  using alike_reads(1,2) [of s t n] by (simp add: nextStop_def)

lemma alike_listeners:
  "alike s t \<Longrightarrow> alike (addEventListener n k i s) (addEventListener n k i t)"
  "alike s t \<Longrightarrow> alike (removeEventListener n k i s) (removeEventListener n k i t)"
  unfolding addEventListener_def removeEventListener_def
  by (erule alike_upd, simp add: flagless_def)+

lemma alike_QBall:
  assumes "alike s t"
  shows "alike (fst (QBall opt s)) (fst (QBall opt t)) \<and> snd (QBall opt s) = snd (QBall opt t)"
proof -
  let ?s1 = "s\<lparr>engines := (engines s)(nengines s := new_engine opt), nengines := Suc (nengines s)\<rparr>"
  let ?t1 = "t\<lparr>engines := (engines t)(nengines t := new_engine opt), nengines := Suc (nengines t)\<rparr>"
  have 1: "alike ?s1 ?t1"
    using assms by (simp add: alike_def)
  have n: "nengines t = nengines s"
    using assms by (simp add: alike_def)
  show ?thesis
    using 1 alike_startProcessing [OF 1, of "nengines s"] alike_reads(7) [OF 1, of "nengines s"]
    by (simp add: QBall_def Let_def n)
qed

lemma alike_finish_process:
  "alike s t \<Longrightarrow> alike (finish_process n w s) (finish_process n w t)"
  by (simp add: finish_process_def)

lemma alike_handle_failure:
  assumes "alike s t"
  shows "alike (handle_failure n w p x s) (handle_failure n w p x t)"
proof -
  let ?s1 = "debugLog n (ErrorProcessing (attempt p) (message p) x) s"
  let ?t1 = "debugLog n (ErrorProcessing (attempt p) (message p) x) t"
  have 1: "alike ?s1 ?t1" using assms by simp
  note r = alike_reads(1) [OF 1, of n]
  have e: "alike (fst (emit n ev ?s1)) (fst (emit n ev ?t1))"
    "snd (emit n ev ?t1) = snd (emit n ev ?s1)" for ev
    using alike_emit [OF 1, of n ev] by simp_all
  have a: "alike (fst (add q m (fst (emit n ev ?s1)))) (fst (add q m (fst (emit n ev ?t1))))"
    "snd (add q m (fst (emit n ev ?t1))) = snd (add q m (fst (emit n ev ?s1)))" for ev q m
    using alike_add [OF e(1), of q m ev] by simp_all
  show ?thesis
    using r e a
    by (simp add: handle_failure_def Let_def split_beta alike_finish_process split: option.splits)
qed

lemma alike_resume:
  assumes "alike s t"
  shows "alike (resume n w p out s) (resume n w p out t)"
proof (cases out)
  case (Inl x)
  then show ?thesis
    using alike_handle_failure [OF assms] by (simp add: resume_def)
next
  case (Inr d)
  have e: "alike (fst (emit n (ProcessedP d) s)) (fst (emit n (ProcessedP d) t))"
    "snd (emit n (ProcessedP d) t) = snd (emit n (ProcessedP d) s)"
    using alike_emit [OF assms, of n "ProcessedP d"] by simp_all
  show ?thesis
    using Inr e alike_handle_failure [OF e(1)]
    by (simp add: resume_def split_beta alike_finish_process split: option.splits)
qed

lemma alike_retry_push:
  "alike s t \<Longrightarrow> alike (retry_push n w p s) (retry_push n w p t)"
  by (simp add: retry_push_def)

lemma alike_retry_restart:
  assumes "alike s t"
  shows "alike (retry_restart n w s) (retry_restart n w t)"
  using alike_startProcessing [OF assms, of n]
  by (simp add: retry_restart_def split_beta split: option.splits)

lemma alike_exec: "alike s t \<Longrightarrow> alike (exec tk s) (exec tk t)"
  by (cases tk)
    (simp_all add: alike_resume alike_worker_loop alike_retry_push alike_retry_restart
      alike_nextStop)

lemma alike_step:
  assumes "alike s t"
  shows "(step s = None \<longleftrightarrow> step t = None) \<and>
         (\<forall>s' t'. step s = Some s' \<longrightarrow> step t = Some t' \<longrightarrow> alike s' t')"
proof -
  note g = alike_globals [OF assms]
  have m: "alike (s\<lparr>microtasks := ts\<rparr>) (t\<lparr>microtasks := ts\<rparr>)" for ts
    using assms by (simp add: alike_def)
  have tm: "alike (s\<lparr>timers := ts, now := c\<rparr>) (t\<lparr>timers := ts, now := c\<rparr>)" for ts c
    using assms by (simp add: alike_def)
  show ?thesis
    using g alike_exec [OF m] alike_exec [OF tm]
    by (auto simp: step_def split: list.splits option.splits)
qed

lemma alike_perform:
  assumes "alike s t"
  shows "alike (fst (perform c s)) (fst (perform c t)) \<and> snd (perform c s) = snd (perform c t)"
proof (cases c)
  case Tick
  show ?thesis
    using alike_step [OF assms] assms
    by (cases "step s"; cases "step t") (simp_all add: Tick)
qed (simp_all add: assms alike_QBall alike_add start_def alike_startProcessing alike_stop
    alike_clear alike_nextStop alike_listeners)

lemma alike_perform_all:
  "alike s t \<Longrightarrow>
   alike (fst (perform_all cs s)) (fst (perform_all cs t)) \<and>
   snd (perform_all cs s) = snd (perform_all cs t)"
proof (induction cs arbitrary: s t)
  case Nil
  then show ?case by simp
next
  case (Cons c cs)
  note p = alike_perform [OF Cons.prems, of c]
  show ?case
    using p Cons.IH [of "fst (perform c s)" "fst (perform c t)"]
    by (simp add: split_beta)
qed

lemma lifecycle_refl [simp]: "lifecycle c c"
  by (simp add: lifecycle_def)

lemma lifecycle_trans: "lifecycle a b \<Longrightarrow> lifecycle b c \<Longrightarrow> lifecycle a c"
  by (simp add: lifecycle_def)

lemma lifecycle_move: "move a b \<Longrightarrow> lifecycle a b"
  by (simp add: lifecycle_def)

lemma lifecycle_then: "lifecycle a b \<Longrightarrow> move b c \<Longrightarrow> lifecycle a c"
  by (simp add: lifecycle_def)

lemma dispatched_append [simp]: "dispatched n (tr @ tr') = dispatched n tr @ dispatched n tr'"
  by (induction n tr rule: dispatched.induct) simp_all

lemma dispatched_dispatches: "dispatched n (dispatches tr) = dispatched n tr"
  by (induction n tr rule: dispatched.induct) simp_all

lemma snapshot_prims [simp]:
  "queued n (observe ev s) = queued n s" "flying n (observe ev s) = flying n s"
  "waiting n (observe ev s) = waiting n s"
  "queued n (setTimeout dl t s) = queued n s"
  "flying n (setTimeout dl t s) = flying n s + in_flight n t"
  "waiting n (setTimeout dl t s) = waiting n s + held n t"
  "queued n (enqueue t s) = queued n s"
  "flying n (enqueue t s) = flying n s + in_flight n t"
  "waiting n (enqueue t s) = waiting n s + held n t"
  "flying n (upd n' f s) = flying n s" "waiting n (upd n' f s) = waiting n s"
  by (simp_all add: queued_def flying_def waiting_def)

lemma queued_upd:
  "queued n (upd n' f s) = (if n = n' then mset (messagePackets (f (eng n s))) else queued n s)"
  by (simp add: queued_def)

lemma queued_upd_same [simp]:
  "(\<And>e. messagePackets (f e) = messagePackets e) \<Longrightarrow> queued n (upd n' f s) = queued n s"
  by (simp add: queued_def)

lemma snapshot_debugLog [simp]: "snapshot n (debugLog n' line s) = snapshot n s"
  by (simp add: snapshot_def debugLog_def)

lemma snapshot_flags [simp]:
  "snapshot n (set_isWorking n' w b s) = snapshot n s"
  "snapshot n (set_isAwaitingRetry n' w b s) = snapshot n s"
  by (simp_all add: snapshot_def set_isWorking_def set_isAwaitingRetry_def)

lemma snapshot_quiet: "quiet s s' \<Longrightarrow> snapshot n s' = snapshot n s"
  using dispatched_dispatches [of n "trace s"] dispatched_dispatches [of n "trace s'"]
  by (simp add: quiet_def snapshot_def queued_def flying_def waiting_def)

lemma snapshot_emits [simp]:
  "snapshot n (fst (emit n' p s)) = snapshot n s"
  "snapshot n (fst (emit_finished n' s)) = snapshot n s"
  by (simp_all add: snapshot_quiet quiet_emit quiet_emit_finished)

lemma snapshot_observe [simp]:
  "\<not> is_dispatch ev \<Longrightarrow> snapshot n (observe ev s) = snapshot n s"
  by (cases ev) (simp_all add: snapshot_def)

lemma snapshot_process:
  "snapshot n (process n' w p s) =
     (if n = n'
      then (queued n s, add_mset (p\<lparr>attempt := Suc (attempt p)\<rparr>) (flying n s), waiting n s,
            dispatched n (trace s) @ [(message p, Suc (attempt p))])
      else snapshot n s)"
  by (simp add: process_def Let_def split_beta snapshot_def debugLog_def set_isWorking_def)

lemma lifecycle_worker_loop: "lifecycle (snapshot n s) (snapshot n (worker_loop n' w s))"
proof (cases "messagePackets (eng n' s)")
  case Nil
  then show ?thesis
    by (simp add: worker_loop_def split_beta snapshot_def split: option.splits)
      (simp add: snapshot_def [symmetric])
next
  case (Cons p rest)
  let ?s1 = "upd n' (\<lambda>e. e\<lparr>messagePackets := rest\<rparr>) s"
  have "lifecycle (snapshot n s) (snapshot n (process n' w p ?s1))"
  proof (cases "n = n'")
    case True
    have m: "move (queued n s, flying n s, waiting n s, dispatched n (trace s))
            (queued n s - {#p#}, add_mset (p\<lparr>attempt := Suc (attempt p)\<rparr>) (flying n s),
             waiting n s, dispatched n (trace s) @ [(message p, Suc (attempt p))])"
      by (rule move.dispatch) (simp add: queued_def True Cons)
    have "snapshot n (process n' w p ?s1) =
            (queued n s - {#p#}, add_mset (p\<lparr>attempt := Suc (attempt p)\<rparr>) (flying n s),
             waiting n s, dispatched n (trace s) @ [(message p, Suc (attempt p))])"
      using True Cons by (simp add: snapshot_process queued_def)
    then show ?thesis
      using m by (simp add: lifecycle_move snapshot_def)
  next
    case False
    have "snapshot n ?s1 = snapshot n s"
      using False by (simp add: snapshot_def queued_upd)
    then show ?thesis
      using False by (simp add: snapshot_process)
  qed
  then show ?thesis
    using Cons by (simp add: worker_loop_def)
qed

lemma lifecycle_worker_start: "lifecycle (snapshot n s) (snapshot n (worker_start n' w s))"
  using lifecycle_worker_loop [of n "debugLog n' WorkerStarted s" n' w]
  by (simp add: worker_start_def)

lemma lifecycle_start_workers: "lifecycle (snapshot n s) (snapshot n (start_workers n' is s))"
proof (induction "is" arbitrary: s)
  case Nil
  show ?case by simp
next
  case (Cons i "is")
  have "lifecycle (snapshot n s) (snapshot n (start_workers n' is (worker_start n' i s)))"
    by (rule lifecycle_trans [OF lifecycle_worker_start Cons.IH])
  then show ?case
    using Cons.IH [of s] by simp
qed

lemma snapshot_same_queue:
  "(\<And>e. messagePackets (f e) = messagePackets e) \<Longrightarrow> snapshot n (upd n' f s) = snapshot n s"
  by (simp add: snapshot_def)

lemma lifecycle_startProcessing:
  "lifecycle (snapshot n s) (snapshot n (fst (startProcessing n' s)))"
proof -
  let ?s1 = "fst (emit n' StartedP s)"
  let ?s2 = "upd n' (\<lambda>e. e\<lparr>forceStopped := False, isProcessing := True\<rparr>) ?s1"
  have "snapshot n ?s2 = snapshot n s"
    by (simp add: snapshot_same_queue)
  then have "lifecycle (snapshot n s) (snapshot n (start_workers n' is ?s2))" for "is"
    using lifecycle_start_workers [of n ?s2 n' "is"] by simp
  then show ?thesis
    by (simp add: startProcessing_def split_beta split: option.splits)
qed

lemma lifecycle_add: "lifecycle (snapshot n s) (snapshot n (fst (add n' m s)))"
proof -
  let ?s1 = "upd n' (\<lambda>e. e\<lparr>messagePackets :=
                 messagePackets e @ [\<lparr>message = m, attempt = 0\<rparr>]\<rparr>) s"
  have "lifecycle (snapshot n s) (snapshot n ?s1)"
  proof (cases "n = n'")
    case True
    have "move (queued n s, flying n s, waiting n s, dispatched n (trace s))
            (add_mset \<lparr>message = m, attempt = 0\<rparr> (queued n s), flying n s, waiting n s,
             dispatched n (trace s))"
      by (rule move.submit)
    then show ?thesis
      using True by (simp add: snapshot_def queued_def lifecycle_move)
  next
    case False
    then show ?thesis by (simp add: snapshot_def queued_def)
  qed
  then have "lifecycle (snapshot n s) (snapshot n (fst (startProcessing n' ?s1)))"
    by (rule lifecycle_trans [OF _ lifecycle_startProcessing])
  then show ?thesis
    using \<open>lifecycle (snapshot n s) (snapshot n ?s1)\<close>
    by (simp add: add_def Let_def)
qed

lemma lifecycle_discard_all: "lifecycle (Q + Q', F, R, D) (Q', F, R, D)"
proof (induction Q)
  case empty
  show ?case by simp
next
  case (add p Q)
  have "move (add_mset p Q + Q', F, R, D) (add_mset p Q + Q' - {#p#}, F, R, D)"
    by (rule move.discard) simp
  then have "lifecycle (add_mset p Q + Q', F, R, D) (Q + Q', F, R, D)"
    by (simp add: lifecycle_move)
  then show ?case
    by (rule lifecycle_trans [OF _ add.IH])
qed

lemma lifecycle_clear: "lifecycle (snapshot n s) (snapshot n (fst (clear n' s)))"
proof (cases "n = n'")
  case True
  have l: "lifecycle (queued n s + {#}, flying n s, waiting n s, dispatched n (trace s))
          ({#}, flying n s, waiting n s, dispatched n (trace s))"
    by (rule lifecycle_discard_all)
  have "snapshot n (fst (clear n' s)) = ({#}, flying n s, waiting n s, dispatched n (trace s))"
    using True by (simp add: clear_def) (simp add: snapshot_def queued_upd)
  then show ?thesis
    using l by (simp add: snapshot_def)
next
  case False
  have "snapshot n (fst (clear n' s)) = snapshot n s"
    using False by (simp add: clear_def) (simp add: snapshot_def queued_upd)
  then show ?thesis by simp
qed

lemma snapshot_stop [simp]: "snapshot n (fst (stop n' s)) = snapshot n s"
  by (simp add: stop_def Let_def snapshot_same_queue)

lemma snapshot_nextStop [simp]: "snapshot n (nextStop n' s) = snapshot n s"
  by (simp add: nextStop_def snapshot_def)

lemma snapshot_listeners [simp]:
  "snapshot n (addEventListener n' k i s) = snapshot n s"
  "snapshot n (removeEventListener n' k i s) = snapshot n s"
  by (simp_all add: addEventListener_def removeEventListener_def snapshot_same_queue)

lemma snapshot_finish_process [simp]: "snapshot n (finish_process n' w s) = snapshot n s"
  by (simp add: finish_process_def snapshot_def set_isWorking_def)

lemma lifecycle_outcome:
  "lifecycle (with_task m (Resume n w p out) c) c"
proof (cases c)
  case (fields Q F R D)
  show ?thesis
  proof (cases "m = n")
    case True
    have "move (Q, add_mset p F, R, D) (Q, add_mset p F - {#p#}, R, D)"
      by (rule move.outcome) simp
    then show ?thesis
      using True fields by (simp add: lifecycle_move)
  next
    case False
    then show ?thesis using fields by simp
  qed
qed

lemma lifecycle_retry:
  "lifecycle (with_task m (Resume n w p out) c) (with_task m (RetryPush n w p) c)"
proof (cases c)
  case (fields Q F R D)
  show ?thesis
  proof (cases "m = n")
    case True
    have "move (Q, add_mset p F, R, D) (Q, add_mset p F - {#p#}, add_mset p R, D)"
      by (rule move.retry) simp
    then show ?thesis
      using True fields by (simp add: lifecycle_move)
  next
    case False
    then show ?thesis using fields by simp
  qed
qed

lemma lifecycle_requeue:
  "lifecycle (with_task m (RetryPush n w p) (Q, F, R, D))
     ((if m = n then add_mset p Q else Q), F, R, D)"
proof (cases "m = n")
  case True
  have "move (Q, F, add_mset p R, D) (add_mset p Q, F, add_mset p R - {#p#}, D)"
    by (rule move.requeue) simp
  then show ?thesis
    using True by (simp add: lifecycle_move)
next
  case False
  then show ?thesis by simp
qed

lemma snapshot_setTimeout: "snapshot m (setTimeout dl t s) = with_task m t (snapshot m s)"
  by (simp add: snapshot_def)

lemma snapshot_enqueue: "snapshot m (enqueue t s) = with_task m t (snapshot m s)"
  by (simp add: snapshot_def)

lemma lifecycle_handle_failure:
  "lifecycle (with_task m (Resume n w p out) (snapshot m s)) (snapshot m (handle_failure n w p x s))"
proof -
  let ?c = "with_task m (Resume n w p out) (snapshot m s)"
  let ?s1 = "debugLog n (ErrorProcessing (attempt p) (message p) x) s"
  have gone: "lifecycle ?c (snapshot m s)"
    by (rule lifecycle_outcome)
  have retried: "lifecycle ?c (snapshot m (finish_process n w
      (setTimeout dl (RetryPush n w p) (set_isAwaitingRetry n w True (fst (emit n ev ?s1))))))"
    for dl ev
    using lifecycle_retry [of m n w p out "snapshot m s"]
    by (simp add: snapshot_setTimeout)
  have dead: "lifecycle ?c (snapshot m (fst (add q (message p) (fst (emit n ev ?s1)))))" for q ev
  proof -
    have "lifecycle (snapshot m s) (snapshot m (fst (add q (message p) (fst (emit n ev ?s1)))))"
      using lifecycle_add [of m "fst (emit n ev ?s1)" q "message p"] by simp
    then show ?thesis
      by (rule lifecycle_trans [OF gone])
  qed
  show ?thesis
    using gone retried dead
    by (simp add: handle_failure_def Let_def split_beta split: option.splits)
qed

lemma lifecycle_resume:
  "lifecycle (with_task m (Resume n w p out) (snapshot m s)) (snapshot m (resume n w p out s))"
proof (cases out)
  case (Inl x)
  then show ?thesis
    using lifecycle_handle_failure [of m n w p out s x] by (simp add: resume_def)
next
  case (Inr d)
  have "lifecycle (with_task m (Resume n w p out) (snapshot m s))
          (snapshot m (handle_failure n w p x (fst (emit n (ProcessedP d) s))))" for x
    using lifecycle_handle_failure [of m n w p out "fst (emit n (ProcessedP d) s)" x] by simp
  then show ?thesis
    using Inr lifecycle_outcome [of m n w p out "snapshot m s"]
    by (simp add: resume_def split_beta split: option.splits)
qed

lemma lifecycle_retry_push:
  "lifecycle (with_task m (RetryPush n w p) (snapshot m s)) (snapshot m (retry_push n w p s))"
proof -
  have "snapshot m (retry_push n w p s) =
          ((if m = n then add_mset p (queued m s) else queued m s), flying m s, waiting m s,
           dispatched m (trace s))"
    by (simp add: retry_push_def snapshot_def queued_upd) (simp add: queued_def)
  then show ?thesis
    using lifecycle_requeue [of m n w p "queued m s" "flying m s" "waiting m s" "dispatched m (trace s)"]
    by (simp add: snapshot_def)
qed

lemma lifecycle_retry_restart:
  "lifecycle (snapshot m s) (snapshot m (retry_restart n w s))"
  using lifecycle_startProcessing [of m s n]
  by (simp add: retry_restart_def split_beta split: option.splits)

lemma with_task_idle:
  "in_flight m t = {#} \<Longrightarrow> held m t = {#} \<Longrightarrow> with_task m t c = c"
  by (cases c) simp

lemma lifecycle_exec:
  "lifecycle (with_task m t (snapshot m s)) (snapshot m (exec t s))"
proof (cases t)
  case (Settle n w p out)
  then show ?thesis
    by (simp add: snapshot_enqueue) (simp add: snapshot_def)
next
  case (Resume n w p out)
  then show ?thesis by (simp add: lifecycle_resume)
next
  case (RetryPush n w p)
  then show ?thesis by (simp add: lifecycle_retry_push)
next
  case (Loop n w)
  then show ?thesis by (simp add: with_task_idle lifecycle_worker_loop)
next
  case (RetryRestart n w)
  then show ?thesis by (simp add: with_task_idle lifecycle_retry_restart)
qed (simp_all add: with_task_idle snapshot_setTimeout snapshot_enqueue)

lemma take_due_sum:
  fixes g :: "'a \<Rightarrow> 'b :: comm_monoid_add"
  shows "take_due d xs = Some (t, ys) \<Longrightarrow>
         sum_list (map (g \<circ> snd) xs) = g t + sum_list (map (g \<circ> snd) ys)"
proof (induction xs arbitrary: ys)
  case Nil
  then show ?case by simp
next
  case (Cons x xs)
  obtain d' t' where x: "x = (d', t')" by (cases x)
  show ?case
  proof (cases "d' = d")
    case True
    then show ?thesis using Cons.prems x by simp
  next
    case False
    then obtain zs where z: "take_due d xs = Some (t, zs)" and ys: "ys = (d', t') # zs"
      using Cons.prems x by (auto split: option.splits)
    show ?thesis
      using Cons.IH [OF z] by (simp add: x ys add.left_commute)
  qed
qed

lemma lifecycle_step:
  assumes "step s = Some s'"
  shows "lifecycle (snapshot m s) (snapshot m s')"
proof (cases "microtasks s")
  case (Cons t ts)
  let ?s0 = "s\<lparr>microtasks := ts\<rparr>"
  have "snapshot m s = with_task m t (snapshot m ?s0)"
    using Cons by (simp add: snapshot_def flying_def waiting_def queued_def eng_def ac_simps)
  moreover have "s' = exec t ?s0"
    using assms Cons by (simp add: step_def)
  ultimately show ?thesis
    by (simp add: lifecycle_exec)
next
  case Nil
  then obtain t ts where due: "take_due (least_due (timers s)) (timers s) = Some (t, ts)"
    and s': "s' = exec t (s\<lparr>timers := ts, now := max (now s) (least_due (timers s))\<rparr>)"
    using assms by (auto simp: step_def split: option.splits)
  let ?s0 = "s\<lparr>timers := ts, now := max (now s) (least_due (timers s))\<rparr>"
  have "snapshot m s = with_task m t (snapshot m ?s0)"
    using take_due_sum [OF due, of "in_flight m"] take_due_sum [OF due, of "held m"]
    by (simp add: snapshot_def flying_def waiting_def queued_def eng_def ac_simps)
  then show ?thesis
    by (simp add: s' lifecycle_exec)
qed

lemma lifecycle_QBall: "lifecycle (before n (Create opt) s) (snapshot n (fst (QBall opt s)))"
proof -
  let ?s1 = "s\<lparr>engines := (engines s)(nengines s := new_engine opt), nengines := Suc (nengines s)\<rparr>"
  have "snapshot n ?s1 = before n (Create opt) s"
    by (simp add: snapshot_def queued_def flying_def waiting_def eng_def new_engine_def)
  then show ?thesis
    using lifecycle_startProcessing [of n ?s1 "nengines s"]
    by (simp add: QBall_def Let_def del: before.simps)
qed

section \<open>Claims\<close>



text \<open>
  C7. \<^verbatim>\<open>start()\<close> does nothing when the engine is processing and no worker awaits a
  retry: it returns the state as it is and publishes no event (with \<^verbatim>\<open>debug\<close> set, a
  line goes to the debug log). With one seeded message, one worker and \<^verbatim>\<open>autoStart\<close>
  false, the second \<^verbatim>\<open>start()\<close> returns the state the first one left, and the run to
  idleness calls the processor once and publishes \<^verbatim>\<open>processed\<close> once, whatever the time
  the processor takes to succeed.
\<close>

theorem start_twice_processes_once:
  "(isProcessing (eng n s) \<and> \<not> anyAwaitingRetry (eng n s) \<longrightarrow>
      start n s = (if debug (opts (eng n s)) then observe (Logged n AlreadyProcessing) s else s, None)) \<and>
   (let s0 = fst (QBall ((defaults (\<lambda>k x. (latency, Inr (f x))))\<lparr>autoStart := False, messages := [m], workers := 1\<rparr>) (boot r));
        s1 = fst (start 0 s0)
    in start 0 s1 = (s1, None) \<and>
       map_option trace (run 10 s1) =
         Some [Emitted 0 StartedP, Invoked 0 m 1, Emitted 0 (ProcessedP (f m)),
               Called 0 Internal (ProcessedP (f m)), Emitted 0 FinishedP,
               Called 0 Internal FinishedP])"
proof -
  have "start n s = (if debug (opts (eng n s)) then observe (Logged n AlreadyProcessing) s else s, None)"
    if "isProcessing (eng n s) \<and> \<not> anyAwaitingRetry (eng n s)"
    using that by (simp add: start_def startProcessing_def debugLog_def)
  moreover have "(let s0 = fst (QBall ((defaults (\<lambda>k x. (latency, Inr (f x))))\<lparr>autoStart := False, messages := [m], workers := 1\<rparr>) (boot r));
        s1 = fst (start 0 s0)
    in start 0 s1 = (s1, None) \<and>
       map_option trace (run 10 s1) =
         Some [Emitted 0 StartedP, Invoked 0 m 1, Emitted 0 (ProcessedP (f m)),
               Called 0 Internal (ProcessedP (f m)), Emitted 0 FinishedP,
               Called 0 Internal FinishedP])"
    by (cases "latency = 0") (simp_all add: engine_defs Let_def numeral_nat)
  ultimately show ?thesis by blast
qed

theorem start_twice_processes_once_witness:
  "(let s1 = fst (start 0 (fst (QBall ((defaults (\<lambda>k x. (0, Inr x)))\<lparr>autoStart := False, messages := [''test'']\<rparr>) (boot (\<lambda>i. None)))))
    in isProcessing (eng 0 s1) \<and> \<not> anyAwaitingRetry (eng 0 s1) \<and>
       start 0 s1 = (s1 :: (string, string, string) sys, None))"
  using start_twice_processes_once
    [of 0 "fst (start 0 (fst (QBall ((defaults (\<lambda>k x. (0, Inr x)))\<lparr>autoStart := False, messages := [''test'']\<rparr>) (boot (\<lambda>i. None)))))"]
  by (simp add: engine_defs Let_def)

text \<open>
  C1. The claim: N submitted items, a processor that always succeeds and W workers give
  N calls of the processor, N \<^verbatim>\<open>processed\<close> events and one \<^verbatim>\<open>finished\<close> event. With
  two seeded messages and two workers both messages are in flight before the first
  \<^verbatim>\<open>processed\<close> event; the engine's listener of \<^verbatim>\<open>processed\<close> then finds the queue
  empty each time, and \<^verbatim>\<open>finished\<close> is published twice.
\<close>

theorem two_workers_finish_twice:
  "map_option trace
     (run 20 (fst (QBall ((defaults (\<lambda>k m. (0, Inr m)))\<lparr>messages := [''a'', ''b''], workers := 2\<rparr>)
                    (boot (\<lambda>i. None :: string option))))) =
   Some [Emitted 0 StartedP, Invoked 0 ''a'' 1, Invoked 0 ''b'' 1,
         Emitted 0 (ProcessedP ''a''), Called 0 Internal (ProcessedP ''a''),
         Emitted 0 FinishedP, Called 0 Internal FinishedP,
         Emitted 0 (ProcessedP ''b''), Called 0 Internal (ProcessedP ''b''),
         Emitted 0 FinishedP, Called 0 Internal FinishedP]"
  by code_simp

text \<open>
  C3. In every reachable state the engine's own finished-check listener is the first
  element of the \<^verbatim>\<open>processed\<close> listener list of every engine, before the
  \<^verbatim>\<open>onProcessed\<close> callback of the options and the listeners added later. So whenever
  \<^verbatim>\<open>processed\<close> is published with these listener lists, the first listener called is
  this one, and the publication makes one publication of \<^verbatim>\<open>finished\<close> when the queue
  is empty and no worker awaits a retry, and none otherwise.
\<close>

theorem finished_check_runs_first:
  assumes "reachable s" and "n < nengines s" and "static s1 = static s"
  shows "take 1 (listeners (eng n s) Processed) = [Internal] \<and>
         take 2 (drop (length (trace s1)) (trace (fst (emit n (ProcessedP d) s1)))) =
           [Emitted n (ProcessedP d), Called n Internal (ProcessedP d)] \<and>
         publications n Finished (trace (fst (emit n (ProcessedP d) s1))) =
           publications n Finished (trace s1) @
             (if \<not> hasMessages (eng n s1) \<and> \<not> anyAwaitingRetry (eng n s1)
              then [Emitted n FinishedP] else [])"
proof -
  have "internal_first (listeners (eng n s) Processed)"
    using reachable_wellformed [OF assms(1)] assms(2)
    by (simp add: wellformed_def wellformed_engine_def)
  then obtain rest where ls: "listeners (eng n s) Processed = Internal # rest"
    and rest: "Internal \<notin> set rest"
    by (auto simp: internal_first_def)
  have ls1: "listeners (eng n s1) Processed = Internal # rest"
    using static_listeners [OF assms(3), of n] ls by simp
  show ?thesis
    using ls emit_processed_internal_first [OF ls1 rest, of d] by simp
qed

theorem finished_check_runs_first_witness:
  "(let s = fst (QBall ((defaults (\<lambda>k m. (0, Inr m)))\<lparr>autoStart := False, onProcessed := Some 7\<rparr>)
                  (boot (\<lambda>i. None))) :: (string, string, string) sys
    in reachable s \<and> 0 < nengines s \<and>
       listeners (eng 0 s) Processed = [Internal, User 7] \<and>
       trace (fst (emit 0 (ProcessedP ''d'') s)) =
         [Emitted 0 (ProcessedP ''d''), Called 0 Internal (ProcessedP ''d''),
          Emitted 0 FinishedP, Called 0 Internal FinishedP,
          Called 0 (User 7) (ProcessedP ''d'')])"
proof -
  let ?s = "fst (QBall ((defaults (\<lambda>k m. (0, Inr m)))\<lparr>autoStart := False, onProcessed := Some 7\<rparr>)
                  (boot (\<lambda>i. None))) :: (string, string, string) sys"
  have r: "reachable ?s"
    by (rule r_QBall [OF r_boot]) (simp add: defaults_def)
  have n: "0 < nengines ?s"
    by (simp add: engine_defs)
  show ?thesis
    using finished_check_runs_first [OF r n refl, of "''d''"] r
    by (simp add: engine_defs Let_def)
qed





text \<open>
  C10. The \<^verbatim>\<open>forceStopped\<close> flag is only written: the engine's listener of \<^verbatim>\<open>error\<close>
  sets it under \<^verbatim>\<open>stopOnError\<close> and \<^verbatim>\<open>startProcessing\<close> resets it, and nothing reads
  it. So whatever value the flag of an engine is given, every sequence of calls and of
  steps of the event loop gives the same trace (the events published, the listeners and
  the processor called), the same exceptions returned to the caller, and states that
  differ at most in the flags: queues, workers, timers and pending tasks are the same.
\<close>

theorem forceStopped_is_never_read:
  "(let t = upd n (\<lambda>e. e\<lparr>forceStopped := b\<rparr>) s
    in trace (fst (perform_all cs t)) = trace (fst (perform_all cs s)) \<and>
       snd (perform_all cs t) = snd (perform_all cs s) \<and>
       alike (fst (perform_all cs t)) (fst (perform_all cs s)))"
proof -
  have "alike (upd n (\<lambda>e. e\<lparr>forceStopped := b\<rparr>) s) s"
    by (simp add: alike_def upd_def flagless_def)
  from alike_perform_all [OF this, of cs] show ?thesis
    by (simp add: Let_def alike_def)
qed




end
